theory Spec2Isabelle
  imports Complex_Main "HOL-Library.Word"
begin

unbundle bit_operations_syntax

section \<open>The streaming packet framer of the Custom IC source (ProtocolParser)\<close>

text \<open>
  The development embeds \<^verbatim>\<open>CustomIC::ProtocolParser\<close> and the publishing loop of
  \<^verbatim>\<open>CustomICThread::updateBuffer\<close> (CustomICThread.cpp / CustomICThread.h).

  Conventions of the embedding.
  \<^item> A byte (\<^verbatim>\<open>uint8_t\<close>) is an \<open>8 word\<close>; \<^verbatim>\<open>int32_t\<close> is a \<open>32 word\<close> read with \<open>sint\<close>.
  \<^item> \<^verbatim>\<open>std::vector<uint8_t> buffer\<close> is a list of bytes, oldest byte first.
  \<^item> \<^verbatim>\<open>numChannels\<close> and \<^verbatim>\<open>bytesPerSample\<close> are C \<^verbatim>\<open>int\<close>s. The embedding takes their
    non-negative values (\<open>nat\<close>) and computes the packet size without wrap-around; a negative
    count or width (where the C++ reads out of range or \<^verbatim>\<open>resize\<close> throws) and products
    beyond the range of \<^verbatim>\<open>int\<close> are outside the embedding.
  \<^item> Of single-precision arithmetic the conversion of an \<^verbatim>\<open>int32_t\<close> to \<^verbatim>\<open>float\<close> is interpreted
    (\<open>int32ToFloat\<close>, round to nearest, ties to even, 24 significant bits); the converted value
    is an integer again and is kept as one. The product of two \<^verbatim>\<open>float\<close>s is not interpreted:
    \<open>fmul ops x s\<close> stands for the single-precision product of the \<^verbatim>\<open>float\<close> of value \<open>x\<close> and
    the \<^verbatim>\<open>float\<close> \<open>s\<close>, and \<open>fzero\<close> for the literal \<^verbatim>\<open>0.0f\<close>. Theorems with a variable \<open>ops\<close> hold
    for all interpretations of both.
\<close>

type_synonym byte = "8 word"

record 'f fops =
  fmul :: "int \<Rightarrow> 'f \<Rightarrow> 'f"
  fzero :: "'f"

record 'f DataPacket =
  samples :: "'f list"
  timestamp :: int
  valid :: bool

record 'f ProtocolParser =
  numChannels :: nat
  bytesPerSample :: nat
  scaleFactor :: "'f"
  syncByte1 :: byte
  syncByte2 :: byte
  useChecksum :: bool
  buffer :: "byte list"

definition MAX_BUFFER_SIZE :: nat where
  "MAX_BUFFER_SIZE = 65536"

text \<open>The member initialisers of the class; \<open>scale\<close> stands for the literal \<^verbatim>\<open>0.195f\<close>.\<close>

definition newParser :: "'f \<Rightarrow> 'f ProtocolParser" where
  "newParser scale =
     \<lparr> numChannels = 8, bytesPerSample = 2, scaleFactor = scale,
       syncByte1 = 0xA0, syncByte2 = 0x5A, useChecksum = True, buffer = [] \<rparr>"

definition configure :: "nat \<Rightarrow> nat \<Rightarrow> 'f \<Rightarrow> 'f ProtocolParser \<Rightarrow> 'f ProtocolParser" where
  "configure channels bytes scale p =
     p\<lparr> numChannels := channels, bytesPerSample := bytes, scaleFactor := scale \<rparr>"

definition setSyncBytes :: "byte \<Rightarrow> byte \<Rightarrow> 'f ProtocolParser \<Rightarrow> 'f ProtocolParser" where
  "setSyncBytes sync1 sync2 p = p\<lparr> syncByte1 := sync1, syncByte2 := sync2 \<rparr>"

definition getPacketSize :: "'f ProtocolParser \<Rightarrow> nat" where
  "getPacketSize p = 2 + (numChannels p * bytesPerSample p) + (if useChecksum p then 1 else 0)"

definition reset :: "'f ProtocolParser \<Rightarrow> 'f ProtocolParser" where
  "reset p = p\<lparr> buffer := [] \<rparr>"

subsection \<open>The conversion of an integer to single precision\<close>

text \<open>
  In \<^verbatim>\<open>rawValue * scaleFactor\<close> the \<^verbatim>\<open>int32_t\<close> is converted to \<^verbatim>\<open>float\<close> first. A \<^verbatim>\<open>float\<close> has
  24 significant bits: an integer with more bits is rounded to the nearest multiple of
  \<open>2 ^ (bits - 24)\<close>, a tie to the multiple with the even quotient. Every \<^verbatim>\<open>int32_t\<close> is far
  inside the exponent range, so the result is finite, and it is an integer.
\<close>

fun bitLength :: "nat \<Rightarrow> nat" where
  "bitLength n = (if n = 0 then 0 else Suc (bitLength (n div 2)))"

definition int32ToFloat :: "int \<Rightarrow> int" where
  "int32ToFloat n =
     (let a = nat \<bar>n\<bar>;
          ulp = 2 ^ (bitLength a - 24);
          q = a div ulp;
          r = a mod ulp;
          q = (if 2 * r > ulp \<or> (2 * r = ulp \<and> odd q) then q + 1 else q)
      in sgn n * int (q * ulp))"

subsection \<open>bytesToSample\<close>

text \<open>
  \<open>bytes\<close> is the memory from the pointer on. A byte is promoted to \<^verbatim>\<open>int\<close> before it is
  shifted (\<open>ucast\<close> to 32 bits); the cast to \<^verbatim>\<open>int16_t\<close> keeps the low 16 bits and is widened
  again with its sign (\<open>scast\<close>).
  The result \<^verbatim>\<open>rawValue * scaleFactor\<close> is the product of the converted integer and the scale.
\<close>

definition b32 :: "byte list \<Rightarrow> nat \<Rightarrow> 32 word" where
  "b32 bytes i = ucast (bytes ! i)"

text \<open>
  The \<^verbatim>\<open>switch\<close>: the value assigned to \<^verbatim>\<open>rawValue\<close>, or \<open>None\<close> in the \<^verbatim>\<open>default\<close> case, which
  returns at once.
\<close>

definition rawValue :: "byte list \<Rightarrow> int \<Rightarrow> 32 word option" where
  "rawValue bytes numBytes =
     (if numBytes = 2 then
        Some (scast (ucast (push_bit 8 (b32 bytes 0) OR b32 bytes 1) :: 16 word))
      else if numBytes = 3 then
        (let rawValue = push_bit 16 (b32 bytes 0) OR push_bit 8 (b32 bytes 1) OR b32 bytes 2
         in Some (if rawValue AND 0x800000 \<noteq> 0 then rawValue OR 0xFF000000 else rawValue))
      else if numBytes = 4 then
        Some (push_bit 24 (b32 bytes 0) OR push_bit 16 (b32 bytes 1)
              OR push_bit 8 (b32 bytes 2) OR b32 bytes 3)
      else None)"

definition bytesToSample :: "'f fops \<Rightarrow> 'f \<Rightarrow> byte list \<Rightarrow> int \<Rightarrow> 'f" where
  "bytesToSample ops scale bytes numBytes =
     (case rawValue bytes numBytes of
        None \<Rightarrow> fzero ops
      | Some raw \<Rightarrow> fmul ops (int32ToFloat (sint raw)) scale)"

text \<open>
  The encoder of the round-trip property, from the wire format: \<open>width\<close> bytes, most
  significant first, two's complement (\<open>div\<close> on \<open>int\<close> rounds down, so it is the arithmetic
  shift, and \<open>word_of_int\<close> keeps the low eight bits).
\<close>

definition encodeBE :: "nat \<Rightarrow> int \<Rightarrow> byte list" where
  "encodeBE width v = map (\<lambda>k. word_of_int (v div 2 ^ (8 * (width - 1 - k)))) [0..<width]"

text \<open>
  An interpretation of the two floating-point parameters over the integers, with the exact
  product, used to evaluate the parser on concrete byte streams. With the scale factor 1 it is
  the single-precision result: the product of a \<^verbatim>\<open>float\<close> and \<^verbatim>\<open>1.0f\<close> is that \<^verbatim>\<open>float\<close>.
\<close>

definition intOps :: "int fops" where
  "intOps = \<lparr> fmul = (\<lambda>raw scale. raw * scale), fzero = 0 \<rparr>"

subsection \<open>parse\<close>

text \<open>
  The first loop of \<^verbatim>\<open>parse\<close>: each byte is pushed at the back; when the buffer has grown
  beyond \<^verbatim>\<open>MAX_BUFFER_SIZE\<close> its first byte is erased.
\<close>

fun appendBytes :: "byte list \<Rightarrow> byte list \<Rightarrow> byte list" where
  "appendBytes buf [] = buf"
| "appendBytes buf (d # ds) =
     (let buf = buf @ [d];
          buf = (if length buf > MAX_BUFFER_SIZE then tl buf else buf)
      in appendBytes buf ds)"

text \<open>\<^verbatim>\<open>validateChecksum\<close>: the XOR of the first \<open>sz - 1\<close> bytes (\<open>sz\<close> is the parameter \<^verbatim>\<open>size\<close>) against the last one.\<close>

definition validateChecksum :: "byte list \<Rightarrow> nat \<Rightarrow> bool" where
  "validateChecksum packet sz =
     (foldl (\<lambda>checksum b. checksum XOR b) 0 (take (sz - 1) packet) = packet ! (sz - 1))"

text \<open>
  The inner \<^verbatim>\<open>for\<close> loop: the first \<open>i \<le> buffer.size() - packetSize\<close> at which both sync
  bytes match, if any. It is entered with \<open>packetSize \<le> buffer.size()\<close>.
\<close>

definition findSync :: "byte \<Rightarrow> byte \<Rightarrow> byte list \<Rightarrow> nat \<Rightarrow> nat option" where
  "findSync sync1 sync2 buf packetSize =
     find (\<lambda>i. buf ! i = sync1 \<and> buf ! (i + 1) = sync2) [0 ..< Suc (length buf - packetSize)]"

text \<open>
  The sample loop on an aligned packet: channel \<open>ch\<close> is read at
  \<open>samplePtr = buffer.data() + 2 + ch * bytesPerSample\<close>.
\<close>

definition decodePacket :: "'f fops \<Rightarrow> 'f ProtocolParser \<Rightarrow> byte list \<Rightarrow> 'f DataPacket" where
  "decodePacket ops p buf =
     \<lparr> samples = map (\<lambda>ch. bytesToSample ops (scaleFactor p)
                              (drop (2 + ch * bytesPerSample p) buf) (int (bytesPerSample p)))
                     [0 ..< numChannels p],
       timestamp = 0,
       valid = True \<rparr>"

text \<open>
  One pass through the body of the \<^verbatim>\<open>while\<close> loop. \<open>Break\<close> carries the buffer the loop is
  left with; \<open>Continue\<close> carries the buffer and the packets pushed in this pass (none after a
  checksum failure, one after a decoded packet).
\<close>

datatype 'f iter = Break "byte list" | Continue "byte list" "'f DataPacket list"

definition parseIter :: "'f fops \<Rightarrow> 'f ProtocolParser \<Rightarrow> 'f iter" where
  "parseIter ops p =
     (let packetSize = getPacketSize p; buf = buffer p in
      case findSync (syncByte1 p) (syncByte2 p) buf packetSize of
        None \<Rightarrow> Break (if length buf > 2 then drop (length buf - 2) buf else buf)
      | Some syncPos \<Rightarrow>
          (let buf = (if syncPos > 0 then drop syncPos buf else buf) in
           if length buf < packetSize then Break buf
           else if useChecksum p \<and> \<not> validateChecksum buf packetSize then Continue (tl buf) []
           else Continue (drop packetSize buf) [decodePacket ops p buf]))"

function parseLoop ::
  "'f fops \<Rightarrow> 'f ProtocolParser \<Rightarrow> 'f DataPacket list \<Rightarrow> 'f ProtocolParser \<times> 'f DataPacket list"
where
  "parseLoop ops p packets =
     (if length (buffer p) \<ge> getPacketSize p then
        (case parseIter ops p of
           Break buf \<Rightarrow> (p\<lparr>buffer := buf\<rparr>, packets)
         | Continue buf new \<Rightarrow> parseLoop ops (p\<lparr>buffer := buf\<rparr>) (packets @ new))
      else (p, packets))"
  by pat_completeness auto
termination
proof (relation "measure (\<lambda>(ops, p, packets). length (buffer p))")
  show "wf (measure (\<lambda>(ops, p, packets). length (buffer p)))"
    by simp
next
  fix ops :: "'f fops" and p :: "'f ProtocolParser" and packets :: "'f DataPacket list"
    and buf new
  assume size: "getPacketSize p \<le> length (buffer p)" and it: "parseIter ops p = Continue buf new"
  have pos: "0 < getPacketSize p"
    by (simp add: getPacketSize_def)
  from it size pos have "length buf < length (buffer p)"
    by (auto simp add: parseIter_def Let_def split: option.splits if_splits)
  then show "((ops, p\<lparr>buffer := buf\<rparr>, packets @ new), (ops, p, packets))
      \<in> measure (\<lambda>(ops, p, packets). length (buffer p))"
    by simp
qed

definition parse ::
  "'f fops \<Rightarrow> 'f ProtocolParser \<Rightarrow> byte list \<Rightarrow> 'f ProtocolParser \<times> 'f DataPacket list"
where
  "parse ops p data = parseLoop ops (p\<lparr>buffer := appendBytes (buffer p) data\<rparr>) []"

text \<open>The same loop with a bound on the number of passes: \<open>None\<close> when the bound is used up.\<close>

fun parseLoopFuel ::
  "nat \<Rightarrow> 'f fops \<Rightarrow> 'f ProtocolParser \<Rightarrow> 'f DataPacket list
     \<Rightarrow> ('f ProtocolParser \<times> 'f DataPacket list) option"
where
  "parseLoopFuel 0 ops p packets = None"
| "parseLoopFuel (Suc n) ops p packets =
     (if length (buffer p) \<ge> getPacketSize p then
        (case parseIter ops p of
           Break buf \<Rightarrow> Some (p\<lparr>buffer := buf\<rparr>, packets)
         | Continue buf new \<Rightarrow> parseLoopFuel n ops (p\<lparr>buffer := buf\<rparr>) (packets @ new))
      else Some (p, packets))"

text \<open>A byte stream delivered in several calls of \<^verbatim>\<open>parse\<close>: the packets of all calls, in order.\<close>

fun parseChunks ::
  "'f fops \<Rightarrow> 'f ProtocolParser \<Rightarrow> byte list list \<Rightarrow> 'f ProtocolParser \<times> 'f DataPacket list"
where
  "parseChunks ops p [] = (p, [])"
| "parseChunks ops p (chunk # chunks) =
     (let (p1, out1) = parse ops p chunk;
          (p2, out2) = parseChunks ops p1 chunks
      in (p2, out1 @ out2))"

text \<open>The public operations of the class, and a sequence of calls on one parser object.\<close>

datatype 'f call =
    Configure nat nat 'f
  | SetSyncBytes byte byte
  | Reset
  | Parse "byte list"

fun doCall :: "'f fops \<Rightarrow> 'f ProtocolParser \<Rightarrow> 'f call \<Rightarrow> 'f ProtocolParser" where
  "doCall ops p (Configure channels bytes scale) = configure channels bytes scale p"
| "doCall ops p (SetSyncBytes sync1 sync2) = setSyncBytes sync1 sync2 p"
| "doCall ops p Reset = reset p"
| "doCall ops p (Parse data) = fst (parse ops p data)"

definition runCalls :: "'f fops \<Rightarrow> 'f ProtocolParser \<Rightarrow> 'f call list \<Rightarrow> 'f ProtocolParser" where
  "runCalls ops p calls = foldl (doCall ops) p calls"

text \<open>
  A well-formed packet of the wire format for the parser's configuration: of the packet size,
  starting with the two sync bytes, and ending (when the checksum is enabled) with the XOR of
  the bytes before it.
\<close>

definition wellFormedPacket :: "'f ProtocolParser \<Rightarrow> byte list \<Rightarrow> bool" where
  "wellFormedPacket p pkt =
     (length pkt = getPacketSize p \<and> pkt ! 0 = syncByte1 p \<and> pkt ! 1 = syncByte2 p
      \<and> (useChecksum p \<longrightarrow> validateChecksum pkt (getPacketSize p)))"

text \<open>
  Position \<open>i\<close> of a buffer is accepted as a packet start when both sync bytes match there and
  (with the checksum enabled) the window from \<open>i\<close> passes \<^verbatim>\<open>validateChecksum\<close>.
\<close>

definition acceptedAt :: "'f ProtocolParser \<Rightarrow> byte list \<Rightarrow> nat \<Rightarrow> bool" where
  "acceptedAt p buf i =
     (buf ! i = syncByte1 p \<and> buf ! (i + 1) = syncByte2 p
      \<and> (useChecksum p \<longrightarrow> validateChecksum (drop i buf) (getPacketSize p)))"

text \<open>The configurations of the documented parameter ranges.\<close>

definition validConfig :: "'f ProtocolParser \<Rightarrow> bool" where
  "validConfig p =
     (1 \<le> numChannels p \<and> numChannels p \<le> 256 \<and> bytesPerSample p \<in> {2, 3, 4})"

text \<open>
  The configuration of the worked examples: two channels of 16 bits, scale factor 1, sync bytes
  A0 5A, checksum enabled; hence packets of 7 bytes.
\<close>

definition exampleParser :: "int ProtocolParser" where
  "exampleParser = configure 2 2 1 (newParser 1)"

section \<open>The publishing loop of the acquisition thread (CustomICThread, live mode)\<close>

text \<open>
  Double-precision arithmetic is not interpreted either: the conversion of an integer to
  \<^verbatim>\<open>double\<close> (\<open>ofInt\<close>), the division, the subtraction and the comparison \<open><\<close> are
  parameters. The literals \<^verbatim>\<open>-1.0\<close> and \<^verbatim>\<open>0\<close> of the code are \<open>ofInt (-1)\<close> and \<open>ofInt 0\<close>.
\<close>

record 'd dops =
  ofInt :: "int \<Rightarrow> 'd"
  ddiv :: "'d \<Rightarrow> 'd \<Rightarrow> 'd"
  dsub :: "'d \<Rightarrow> 'd \<Rightarrow> 'd"
  dless :: "'d \<Rightarrow> 'd \<Rightarrow> bool"

text \<open>
  The members of \<^verbatim>\<open>CustomICThread\<close> that the live branch of \<^verbatim>\<open>updateBuffer\<close> reads and writes.
  \<open>sampleRate\<close> is the \<^verbatim>\<open>float\<close> member as the division sees it, widened to \<^verbatim>\<open>double\<close>. The two
  arrays are allocated with \<^verbatim>\<open>bufferSize\<close> elements (the member is initialised to 1024 and is
  never assigned). The copy of the sample values into \<^verbatim>\<open>dataBuffer\<close> and the zeroed event words
  are not modelled.
\<close>

record ('f, 'd) CustomICThread =
  sampleRate :: "'d"
  totalSamples :: int
  initialTimestamp :: "'d"
  bufferSize :: nat
  sampleNumbers :: "int list"
  timestampBuffer :: "'d list"
  parser :: "'f ProtocolParser"

text \<open>
  \<^verbatim>\<open>startAcquisition\<close> on a connected thread: the counters are reset and the parser is cleared
  (the connection, the resizing of the host buffers and the thread start are outside the model).
\<close>

definition startAcquisition :: "'d dops \<Rightarrow> ('f, 'd) CustomICThread \<Rightarrow> ('f, 'd) CustomICThread" where
  "startAcquisition d t =
     t\<lparr> totalSamples := 0, initialTimestamp := ofInt d (- 1), parser := reset (parser t) \<rparr>"

text \<open>
  The \<^verbatim>\<open>for\<close> loop over the packets of one call of parse, from index \<open>i\<close> on. A packet that is
  not valid is skipped (\<^verbatim>\<open>continue\<close>) and leaves its slot as it was.
\<close>

fun publishLoop ::
  "'d dops \<Rightarrow> 'f DataPacket list \<Rightarrow> nat \<Rightarrow> ('f, 'd) CustomICThread \<Rightarrow> ('f, 'd) CustomICThread"
where
  "publishLoop d [] i t = t"
| "publishLoop d (packet # rest) i t =
     (if \<not> valid packet then publishLoop d rest (Suc i) t
      else
        (let t = t\<lparr> sampleNumbers := (sampleNumbers t)[i := totalSamples t + int i] \<rparr>;
             ts = ddiv d (ofInt d (totalSamples t + int i)) (sampleRate t);
             t = (if dless d (initialTimestamp t) (ofInt d 0) then t\<lparr> initialTimestamp := ts \<rparr> else t);
             t = t\<lparr> timestampBuffer := (timestampBuffer t)[i := dsub d ts (initialTimestamp t)] \<rparr>
         in publishLoop d rest (Suc i) t))"

text \<open>
  The live branch of \<^verbatim>\<open>updateBuffer\<close> for the bytes of one read (\<open>bytesRead\<close> is their number).
  The second component is what is handed to \<^verbatim>\<open>addToBuffer\<close>: the first \<open>numPackets\<close> sample
  numbers and timestamps. With more than \<^verbatim>\<open>bufferSize\<close> packets the loop writes beyond the
  arrays; that is \<open>None\<close>.
\<close>

definition updateBuffer ::
  "'f fops \<Rightarrow> 'd dops \<Rightarrow> ('f, 'd) CustomICThread \<Rightarrow> byte list
     \<Rightarrow> (('f, 'd) CustomICThread \<times> (int \<times> 'd) list) option"
where
  "updateBuffer ops d t bytes =
     (if length bytes > 0 then
        (let (parser1, packets) = parse ops (parser t) bytes;
             t = t\<lparr> parser := parser1 \<rparr>;
             numPackets = length packets
         in if numPackets > 0 then
              (if numPackets > bufferSize t then None
               else
                 (let t1 = publishLoop d packets 0 t
                  in Some (t1\<lparr> totalSamples := totalSamples t1 + int numPackets \<rparr>,
                           zip (take numPackets (sampleNumbers t1))
                               (take numPackets (timestampBuffer t1)))))
            else Some (t, []))
      else Some (t, []))"

text \<open>
  Successive cycles of the acquisition loop, one read each; the published rows in order. A read
  delivers at most \<^verbatim>\<open>READ_BUFFER_SIZE\<close> bytes.
\<close>

definition READ_BUFFER_SIZE :: nat where
  "READ_BUFFER_SIZE = 4096"


fun acquire ::
  "'f fops \<Rightarrow> 'd dops \<Rightarrow> ('f, 'd) CustomICThread \<Rightarrow> byte list list
     \<Rightarrow> (('f, 'd) CustomICThread \<times> (int \<times> 'd) list) option"
where
  "acquire ops d t [] = Some (t, [])"
| "acquire ops d t (bytes # reads) =
     (case updateBuffer ops d t bytes of
        None \<Rightarrow> None
      | Some (t1, out1) \<Rightarrow>
          (case acquire ops d t1 reads of
             None \<Rightarrow> None
           | Some (t2, out2) \<Rightarrow> Some (t2, out1 @ out2)))"

text \<open>
  The facts of IEEE arithmetic the timestamps rest on, for a positive finite sample rate:
  \<open>0 / rate = 0\<close>, \<open>x - 0 = x\<close>, \<open>-1 < 0\<close> and not \<open>0 < 0\<close>.
\<close>

definition timeArith :: "'d dops \<Rightarrow> 'd \<Rightarrow> bool" where
  "timeArith d rate =
     (ddiv d (ofInt d 0) rate = ofInt d 0 \<and> (\<forall>x. dsub d x (ofInt d 0) = x)
      \<and> dless d (ofInt d (- 1)) (ofInt d 0) \<and> \<not> dless d (ofInt d 0) (ofInt d 0))"

text \<open>Exact rational arithmetic, an interpretation used to evaluate concrete runs.\<close>

definition ratOps :: "rat dops" where
  "ratOps = \<lparr> ofInt = of_int, ddiv = (\<lambda>a b. a / b), dsub = (\<lambda>a b. a - b), dless = (\<lambda>a b. a < b) \<rparr>"

text \<open>
  A thread object for concrete runs: 256 Hz, arrays of four elements, stale counters from an
  earlier session.
\<close>

definition exampleThread :: "(int, rat) CustomICThread" where
  "exampleThread =
     \<lparr> sampleRate = 256, totalSamples = 7, initialTimestamp = 3, bufferSize = 4,
       sampleNumbers = [0, 0, 0, 0], timestampBuffer = [0, 0, 0, 0], parser = exampleParser \<rparr>"

section \<open>Properties\<close>

subsection \<open>The conversion to single precision\<close>

declare bitLength.simps [simp del]

lemma bitLength_0 [simp]: "bitLength 0 = 0"
  by (simp add: bitLength.simps [of 0])

lemma bitLength_le_iff: "bitLength n \<le> k \<longleftrightarrow> n < 2 ^ k"
proof (induction k arbitrary: n)
  case 0
  show ?case by (cases "n = 0") (simp_all add: bitLength.simps [of n])
next
  case (Suc k)
  show ?case
  proof (cases "n = 0")
    case True
    then show ?thesis by simp
  next
    case False
    then have "bitLength n \<le> Suc k \<longleftrightarrow> bitLength (n div 2) \<le> k"
      by (simp add: bitLength.simps [of n])
    also have "\<dots> \<longleftrightarrow> n div 2 < 2 ^ k" by (rule Suc.IH)
    also have "\<dots> \<longleftrightarrow> n < 2 ^ Suc k" by auto
    finally show ?thesis .
  qed
qed

lemma int32ToFloat_exact:
  assumes "\<bar>n\<bar> \<le> 2 ^ 24"
  shows "int32ToFloat n = n"
proof (cases "\<bar>n\<bar> < 2 ^ 24")
  case True
  then have "nat \<bar>n\<bar> < 2 ^ 24" by (simp add: nat_less_iff)
  then have "bitLength (nat \<bar>n\<bar>) \<le> 24" by (simp only: bitLength_le_iff)
  then have "bitLength (nat \<bar>n\<bar>) - 24 = 0" by simp
  then show ?thesis
    by (simp add: int32ToFloat_def Let_def sgn_if)
next
  case False
  with assms have a: "nat \<bar>n\<bar> = 2 ^ 24" by (simp add: nat_eq_iff)
  have "bitLength (2 ^ 24) \<le> 25" by (simp add: bitLength_le_iff)
  moreover have "\<not> bitLength (2 ^ 24) \<le> 24" by (simp add: bitLength_le_iff)
  ultimately have "bitLength (2 ^ 24) - 24 = 1" by simp
  with a have "int32ToFloat n = sgn n * 2 ^ 24"
    by (simp add: int32ToFloat_def Let_def)
  also have "\<dots> = n" using assms False by (simp add: sgn_if abs_if split: if_splits)
  finally show ?thesis .
qed



lemma bitLength_eq:
  assumes "2 ^ k \<le> n" and "n < 2 ^ Suc k"
  shows "bitLength n = Suc k"
proof -
  have "bitLength n \<le> Suc k" using assms(2) by (simp only: bitLength_le_iff)
  moreover have "\<not> bitLength n \<le> k" using assms(1) by (simp add: bitLength_le_iff)
  ultimately show ?thesis by simp
qed

lemma int32ToFloat_error:
  "2 * \<bar>int32ToFloat n - n\<bar> \<le> 2 ^ (bitLength (nat \<bar>n\<bar>) - 24)"
proof -
  define a where "a = nat \<bar>n\<bar>"
  define ulp :: nat where "ulp = 2 ^ (bitLength a - 24)"
  define q where "q = a div ulp"
  define r where "r = a mod ulp"
  have ulp_pos: "0 < ulp" by (simp add: ulp_def)
  have a_eq: "a = q * ulp + r" by (simp add: q_def r_def)
  have r_lt: "r < ulp" using ulp_pos by (simp add: r_def)
  define q' where "q' = (if 2 * r > ulp \<or> (2 * r = ulp \<and> odd q) then q + 1 else q)"
  have res: "int32ToFloat n = sgn n * int (q' * ulp)"
    by (simp add: int32ToFloat_def Let_def a_def ulp_def q_def r_def q'_def)
  have n_eq: "n = sgn n * int a" by (simp add: a_def sgn_if)
  have "int32ToFloat n - n = sgn n * (int (q' * ulp) - int a)"
    by (subst res, subst (2) n_eq) (simp add: algebra_simps)
  then have "\<bar>int32ToFloat n - n\<bar> \<le> \<bar>int (q' * ulp) - int a\<bar>"
    by (simp add: abs_mult sgn_if)
  moreover have "2 * \<bar>int (q' * ulp) - int a\<bar> \<le> int ulp"
    using r_lt by (auto simp add: q'_def a_eq algebra_simps)
  ultimately have "2 * \<bar>int32ToFloat n - n\<bar> \<le> int ulp" by simp
  then show ?thesis by (simp add: ulp_def a_def)
qed

lemma int32ToFloat_16777217:
  "int32ToFloat 16777217 = 16777216"
proof -
  have "bitLength 16777217 = Suc 24" by (rule bitLength_eq) simp_all
  then show ?thesis by (simp add: int32ToFloat_def Let_def)
qed

lemma int32ToFloat_most_negative:
  "int32ToFloat (- 2147483648) = - 2147483648"
proof -
  have "bitLength 2147483648 = Suc 31" by (rule bitLength_eq) simp_all
  then show ?thesis by (simp add: int32ToFloat_def Let_def)
qed

subsection \<open>The decoder recovers the encoded integer\<close>

lemma bit_div_pow2:
  "k \<le> n \<Longrightarrow> bit ((v::int) div 2 ^ k) (n - k) = bit v n"
  by (simp add: bit_drop_bit_eq flip: drop_bit_eq_div)

lemmas bit_div_bytes =
  bit_div_pow2 [where k = 8, simplified]
  bit_div_pow2 [where k = 16, simplified]
  bit_div_pow2 [where k = 24, simplified]

lemma join16:
  "(ucast (push_bit 8 (ucast (word_of_int (v div 2 ^ 8) :: 8 word) :: 32 word)
          OR ucast (word_of_int v :: 8 word)) :: 16 word)
   = word_of_int v"
  by (rule bit_word_eqI) (auto simp add: bit_simps bit_div_bytes)

lemma join24:
  "push_bit 16 (ucast (word_of_int (v div 2 ^ 16) :: 8 word) :: 32 word)
     OR push_bit 8 (ucast (word_of_int (v div 2 ^ 8) :: 8 word))
     OR ucast (word_of_int v :: 8 word)
   = ucast (word_of_int v :: 24 word)"
  (is "?lhs = ?rhs")
proof (rule bit_word_eqI)
  fix n
  show "bit ?lhs n = bit ?rhs n"
    by (cases "n < 8"; cases "n < 16"; cases "n < 24") (auto simp add: bit_simps bit_div_bytes)
qed

lemma join32:
  "push_bit 24 (ucast (word_of_int (v div 2 ^ 24) :: 8 word) :: 32 word)
     OR push_bit 16 (ucast (word_of_int (v div 2 ^ 16) :: 8 word))
     OR push_bit 8 (ucast (word_of_int (v div 2 ^ 8) :: 8 word))
     OR ucast (word_of_int v :: 8 word)
   = word_of_int v"
  (is "?lhs = ?rhs")
proof (rule bit_word_eqI)
  fix n
  assume "n < LENGTH(32)"
  then show "bit ?lhs n = bit ?rhs n"
    by (cases "n < 8"; cases "n < 16"; cases "n < 24") (auto simp add: bit_simps bit_div_bytes)
qed

lemma sign_bit_24:
  "(0x800000 :: 32 word) = 2 ^ 23"
  by simp

lemma high_byte_32:
  "(0xFF000000 :: 32 word) = push_bit 24 (mask 8)"
  by (simp add: mask_eq_exp_minus_1)

lemma sign_extend_24:
  "(if (ucast (w :: 24 word) :: 32 word) AND 0x800000 \<noteq> 0
    then ucast w OR 0xFF000000 else ucast w) = (scast w :: 32 word)"
  unfolding sign_bit_24 high_byte_32 and_exp_eq_0_iff_not_bit
proof (rule bit_word_eqI)
  fix n
  assume "n < LENGTH(32)"
  then show "bit (if \<not> \<not> bit (ucast w :: 32 word) 23
                  then ucast w OR (push_bit 24 (mask 8) :: 32 word) else ucast w) n
             = bit (scast w :: 32 word) n"
    by (cases "n < 23"; cases "n = 23") (auto simp add: bit_simps min_def dest: bit_imp_le_length)
qed

lemma sint16:
  "- (2 ^ 15) \<le> v \<Longrightarrow> v < 2 ^ 15 \<Longrightarrow> sint (scast (word_of_int v :: 16 word) :: 32 word) = v"
  by (simp add: sint_up_scast is_up sint_sbintrunc' signed_take_bit_int_eq_self)

lemma sint24:
  "- (2 ^ 23) \<le> v \<Longrightarrow> v < 2 ^ 23 \<Longrightarrow> sint (scast (word_of_int v :: 24 word) :: 32 word) = v"
  by (simp add: sint_up_scast is_up sint_sbintrunc' signed_take_bit_int_eq_self)

lemma sint32:
  "- (2 ^ 31) \<le> v \<Longrightarrow> v < 2 ^ 31 \<Longrightarrow> sint (word_of_int v :: 32 word) = v"
  by (simp add: sint_sbintrunc' signed_take_bit_int_eq_self)

lemma encodeBE_2:
  "encodeBE 2 v = [word_of_int (v div 2 ^ 8), word_of_int v]"
  by (simp add: encodeBE_def upt_rec)

lemma encodeBE_3:
  "encodeBE 3 v = [word_of_int (v div 2 ^ 16), word_of_int (v div 2 ^ 8), word_of_int v]"
  by (simp add: encodeBE_def upt_rec)

lemma encodeBE_4:
  "encodeBE 4 v =
     [word_of_int (v div 2 ^ 24), word_of_int (v div 2 ^ 16), word_of_int (v div 2 ^ 8),
      word_of_int v]"
  by (simp add: encodeBE_def upt_rec)

lemma raw_2:
  "- (2 ^ 15) \<le> v \<Longrightarrow> v < 2 ^ 15 \<Longrightarrow>
     map_option sint (rawValue (encodeBE 2 v) 2) = Some v"
  unfolding rawValue_def encodeBE_2 b32_def
  using join16 [of v] by (simp add: sint16)

lemma raw_3:
  "- (2 ^ 23) \<le> v \<Longrightarrow> v < 2 ^ 23 \<Longrightarrow>
     map_option sint (rawValue (encodeBE 3 v) 3) = Some v"
  unfolding rawValue_def encodeBE_3 b32_def
  using join24 [of v] sign_extend_24 [of "word_of_int v"] by (simp add: sint24 Let_def)

lemma raw_4:
  "- (2 ^ 31) \<le> v \<Longrightarrow> v < 2 ^ 31 \<Longrightarrow>
     map_option sint (rawValue (encodeBE 4 v) 4) = Some v"
  unfolding rawValue_def encodeBE_4 b32_def
  using join32 [of v] by (simp add: sint32)

lemma bytesToSample_of_raw:
  "map_option sint (rawValue bytes numBytes) = Some v \<Longrightarrow>
     bytesToSample ops scale bytes numBytes = fmul ops (int32ToFloat v) scale"
  by (auto simp add: bytesToSample_def split: option.splits)

lemma decode_4:
  "- (2 ^ 31) \<le> v \<Longrightarrow> v < 2 ^ 31 \<Longrightarrow>
     bytesToSample ops scale (encodeBE 4 v) 4 = fmul ops (int32ToFloat v) scale"
  by (rule bytesToSample_of_raw) (rule raw_4)

text \<open>
  Claim C5, as amended. For every width in {2, 3, 4} and every integer \<open>v\<close> representable in
  that many bytes as a signed value (the most negative one included), \<^verbatim>\<open>bytesToSample\<close> recovers
  \<open>v\<close> from its big-endian two's complement encoding and returns the single-precision product
  of \<open>v\<close> converted to \<^verbatim>\<open>float\<close> and the scale factor. The converted value is \<open>v\<close> itself for
  the widths 2 and 3 and whenever \<open>\<bar>v\<bar> \<le> 2 ^ 24\<close>; beyond that it is \<open>v\<close> rounded to 24
  significant bits, at most 128 away from \<open>v\<close>. For any other width (negative ones included)
  the result is \<^verbatim>\<open>0.0f\<close>; no byte is read.
\<close>

theorem bytesToSample_roundtrip:
  "(width \<in> {2, 3, 4} \<and> - (2 ^ (8 * width - 1)) \<le> v \<and> v < 2 ^ (8 * width - 1)
      \<longrightarrow> map_option sint (rawValue (encodeBE width v) (int width)) = Some v
          \<and> bytesToSample ops scale (encodeBE width v) (int width)
              = fmul ops (int32ToFloat v) scale
          \<and> (width < 4 \<or> \<bar>v\<bar> \<le> 2 ^ 24 \<longrightarrow> int32ToFloat v = v)
          \<and> 2 * \<bar>int32ToFloat v - v\<bar> \<le> 2 ^ 8)
   \<and> (numBytes \<notin> {2, 3, 4} \<longrightarrow> bytesToSample ops scale bytes numBytes = fzero ops)"
proof (intro conjI impI)
  assume h: "width \<in> {2, 3, 4} \<and> - (2 ^ (8 * width - 1)) \<le> v \<and> v < 2 ^ (8 * width - 1)"
  then consider "width = 2" | "width = 3" | "width = 4" by auto
  then show raw: "map_option sint (rawValue (encodeBE width v) (int width)) = Some v"
  proof cases
    case 1
    with h show ?thesis using raw_2 [of v] by simp
  next
    case 2
    with h show ?thesis using raw_3 [of v] by simp
  next
    case 3
    with h show ?thesis using raw_4 [of v] by simp
  qed
  then show "bytesToSample ops scale (encodeBE width v) (int width) = fmul ops (int32ToFloat v) scale"
    by (rule bytesToSample_of_raw)
  from h have range: "- (2 ^ 31) \<le> v \<and> v < 2 ^ 31" by auto
  then have "nat \<bar>v\<bar> < 2 ^ 32" by (simp add: nat_less_iff abs_if)
  then have "bitLength (nat \<bar>v\<bar>) \<le> 32" by (simp only: bitLength_le_iff)
  then have "bitLength (nat \<bar>v\<bar>) - 24 \<le> 8" by simp
  then have "(2::int) ^ (bitLength (nat \<bar>v\<bar>) - 24) \<le> 2 ^ 8"
    by (intro power_increasing) simp_all
  with int32ToFloat_error [of v] show "2 * \<bar>int32ToFloat v - v\<bar> \<le> 2 ^ 8"
    by linarith
  show "int32ToFloat v = v" if "width < 4 \<or> \<bar>v\<bar> \<le> 2 ^ 24"
  proof (rule int32ToFloat_exact)
    from h that show "\<bar>v\<bar> \<le> 2 ^ 24" by (auto simp add: abs_if)
  qed
next
  assume "numBytes \<notin> {2, 3, 4}"
  then show "bytesToSample ops scale bytes numBytes = fzero ops"
    by (simp add: bytesToSample_def rawValue_def)
qed

theorem bytesToSample_roundtrip_witness:
  "- (2 ^ 31) \<le> (- 2147483648 :: int)
   \<and> map_option sint (rawValue (encodeBE 4 (- 2147483648)) 4) = Some (- 2147483648)
   \<and> bytesToSample intOps 3 (encodeBE 4 (- 2147483648)) 4 = - 6442450944
   \<and> bytesToSample intOps 3 (encodeBE 2 (- 32768)) 2 = - 98304
   \<and> int32ToFloat (- 32768) = - 32768
   \<and> bytesToSample intOps 3 [] 5 = 0"
  using bytesToSample_roundtrip [of 4 "- 2147483648" intOps 3 5 "[]"]
    bytesToSample_roundtrip [of 2 "- 32768" intOps 3 5 "[]"]
  by (simp add: intOps_def int32ToFloat_most_negative)

text \<open>
  Claim C5 as stated (the result is value times scale factor exactly, over the full signed range
  of every width) fails at width 4: the bytes 01 00 00 01 encode 16777217, which has 25
  significant bits; with the scale factor 1 the decoder returns 16777216.
\<close>

theorem bytesToSample_roundtrip_counterexample:
  "encodeBE 4 16777217 = [0x01, 0x00, 0x00, 0x01]
   \<and> - (2 ^ 31) \<le> (16777217 :: int) \<and> (16777217 :: int) < 2 ^ 31
   \<and> bytesToSample intOps 1 (encodeBE 4 16777217) 4 = 16777216
   \<and> (16777216 :: int) \<noteq> 16777217 * 1"
proof -
  have bytes: "encodeBE 4 16777217 = [0x01, 0x00, 0x00, 0x01]"
    by (simp add: encodeBE_4)
  have "bytesToSample intOps 1 (encodeBE 4 16777217) 4 = fmul intOps (int32ToFloat 16777217) 1"
    by (rule decode_4) simp_all
  then have "bytesToSample intOps 1 (encodeBE 4 16777217) 4 = 16777216"
    by (simp add: intOps_def int32ToFloat_16777217)
  with bytes show ?thesis by simp
qed

text \<open>
  Claim C6. For every valid configuration (1 to 256 channels, 2, 3 or 4 bytes per sample, either
  value of the checksum flag) \<^verbatim>\<open>getPacketSize\<close> is 2 + channels * bytesPerSample + (1 if the
  checksum is enabled, else 0); the value lies between 4 and 1027, so the \<^verbatim>\<open>int\<close> computation of
  the code does not overflow.
\<close>

theorem getPacketSize_formula:
  "validConfig p \<Longrightarrow>
     getPacketSize p = 2 + numChannels p * bytesPerSample p + (if useChecksum p then 1 else 0)
     \<and> 4 \<le> getPacketSize p \<and> getPacketSize p \<le> 1027"
proof -
  assume v: "validConfig p"
  then have "numChannels p * bytesPerSample p \<le> 256 * 4"
    by (intro mult_mono) (auto simp add: validConfig_def)
  moreover from v have "1 * 2 \<le> numChannels p * bytesPerSample p"
    by (intro mult_mono) (auto simp add: validConfig_def)
  ultimately show ?thesis
    by (simp add: getPacketSize_def)
qed

theorem getPacketSize_formula_witness:
  "validConfig (configure 2 2 (1::int) (newParser 1))
   \<and> getPacketSize (configure 2 2 (1::int) (newParser 1)) = 7"
  using getPacketSize_formula [of "configure 2 2 (1::int) (newParser 1)"]
  by (simp add: validConfig_def configure_def newParser_def)

subsection \<open>The loop keeps the configuration and never grows the buffer\<close>

declare parseLoop.simps [simp del]

lemma parseLoop_config:
  "fst (parseLoop ops p packets) = p\<lparr>buffer := buffer (fst (parseLoop ops p packets))\<rparr>"
proof (induction ops p packets rule: parseLoop.induct)
  case (1 ops p packets)
  show ?case
  proof (cases "getPacketSize p \<le> length (buffer p)")
    case False
    then show ?thesis by (simp add: parseLoop.simps [of ops p packets])
  next
    case True
    show ?thesis
    proof (cases "parseIter ops p")
      case (Break buf)
      with True show ?thesis by (simp add: parseLoop.simps [of ops p packets])
    next
      case (Continue buf new)
      with True 1 [OF True Continue] show ?thesis
        by (simp add: parseLoop.simps [of ops p packets])
    qed
  qed
qed

lemma parseLoop_fields:
  "useChecksum (fst (parseLoop ops p packets)) = useChecksum p"
  "numChannels (fst (parseLoop ops p packets)) = numChannels p"
  "bytesPerSample (fst (parseLoop ops p packets)) = bytesPerSample p"
  "syncByte1 (fst (parseLoop ops p packets)) = syncByte1 p"
  "syncByte2 (fst (parseLoop ops p packets)) = syncByte2 p"
  "scaleFactor (fst (parseLoop ops p packets)) = scaleFactor p"
  by (subst parseLoop_config, simp)+

lemma doCall_useChecksum: "useChecksum (doCall ops p c) = useChecksum p"
  by (cases c) (simp_all add: configure_def setSyncBytes_def reset_def parse_def parseLoop_fields)

lemma runCalls_useChecksum: "useChecksum (runCalls ops p calls) = useChecksum p"
  unfolding runCalls_def
  by (induction calls arbitrary: p) (simp_all add: doCall_useChecksum)

lemma parseIter_length:
  "getPacketSize p \<le> length (buffer p) \<Longrightarrow> parseIter ops p = Break buf \<Longrightarrow> length buf \<le> length (buffer p)"
  "getPacketSize p \<le> length (buffer p) \<Longrightarrow> parseIter ops p = Continue buf new \<Longrightarrow> length buf < length (buffer p)"
  by (auto simp add: parseIter_def Let_def getPacketSize_def split: option.splits if_splits)

lemma parseLoop_length: "length (buffer (fst (parseLoop ops p packets))) \<le> length (buffer p)"
proof (induction ops p packets rule: parseLoop.induct)
  case (1 ops p packets)
  show ?case
  proof (cases "getPacketSize p \<le> length (buffer p)")
    case False
    then show ?thesis by (simp add: parseLoop.simps [of ops p packets])
  next
    case True
    show ?thesis
    proof (cases "parseIter ops p")
      case (Break buf)
      with True parseIter_length(1) [OF True Break] show ?thesis by (simp add: parseLoop.simps [of ops p packets])
    next
      case (Continue buf new)
      with True 1 [OF True Continue] parseIter_length(2) [OF True Continue] show ?thesis
        by (simp add: parseLoop.simps [of ops p packets])
    qed
  qed
qed

lemma appendBytes_eq:
  "length buf \<le> MAX_BUFFER_SIZE \<Longrightarrow>
     appendBytes buf data = drop (length buf + length data - MAX_BUFFER_SIZE) (buf @ data)"
proof (induction data arbitrary: buf)
  case Nil
  then show ?case by simp
next
  case (Cons d ds)
  show ?case
  proof (cases "length buf < MAX_BUFFER_SIZE")
    case True
    then show ?thesis using Cons.IH [of "buf @ [d]"] by simp
  next
    case False
    with Cons.prems have full: "length buf = MAX_BUFFER_SIZE" by simp
    then have ne: "buf \<noteq> []" by (auto simp add: MAX_BUFFER_SIZE_def)
    have len: "length (tl (buf @ [d])) \<le> MAX_BUFFER_SIZE" using full by simp
    have "appendBytes buf (d # ds) = appendBytes (tl (buf @ [d])) ds"
      using full by simp
    also have "\<dots> = drop (length (tl (buf @ [d])) + length ds - MAX_BUFFER_SIZE) (tl (buf @ [d]) @ ds)"
      by (rule Cons.IH [OF len])
    also have "\<dots> = drop (length buf + length (d # ds) - MAX_BUFFER_SIZE) (buf @ d # ds)"
      using full ne by (cases buf) (simp_all add: drop_Cons')
    finally show ?thesis .
  qed
qed

lemma appendBytes_length:
  "length buf \<le> MAX_BUFFER_SIZE \<Longrightarrow> length (appendBytes buf data) \<le> MAX_BUFFER_SIZE"
  by (simp add: appendBytes_eq)

lemma doCall_bounded:
  "length (buffer p) \<le> MAX_BUFFER_SIZE \<Longrightarrow> length (buffer (doCall ops p c)) \<le> MAX_BUFFER_SIZE"
proof (cases c)
  case (Parse data)
  assume "length (buffer p) \<le> MAX_BUFFER_SIZE"
  then have "length (appendBytes (buffer p) data) \<le> MAX_BUFFER_SIZE" by (rule appendBytes_length)
  moreover have "length (buffer (fst (parse ops p data))) \<le> length (appendBytes (buffer p) data)"
    unfolding parse_def using parseLoop_length [of ops "p\<lparr>buffer := appendBytes (buffer p) data\<rparr>" "[]"] by simp
  ultimately show ?thesis using Parse by simp
qed (simp_all add: configure_def setSyncBytes_def reset_def)

lemma runCalls_bounded:
  "length (buffer p) \<le> MAX_BUFFER_SIZE \<Longrightarrow> length (buffer (runCalls ops p calls)) \<le> MAX_BUFFER_SIZE"
  unfolding runCalls_def
  by (induction calls arbitrary: p) (simp_all add: doCall_bounded)

text \<open>
  Claim C10. After any sequence of calls of configure, setSyncBytes, reset and parse on a newly
  constructed parser the checksum flag still has its initial value \<open>True\<close>: no operation of the
  parser disables checksum validation.
\<close>

theorem useChecksum_never_disabled:
  "useChecksum (runCalls ops (newParser scale) calls)"
  by (simp add: runCalls_useChecksum newParser_def)

text \<open>
  Claim C7. After any sequence of calls on a newly constructed parser the frame buffer holds at
  most \<^verbatim>\<open>MAX_BUFFER_SIZE\<close> = 65536 bytes, whatever the input; and the appending loop of the next
  \<^verbatim>\<open>parse\<close> leaves the newest 65536 bytes of the old buffer followed by the new data, that is,
  the oldest bytes are the ones discarded.
\<close>

theorem buffer_never_exceeds_cap:
  "length (buffer (runCalls ops (newParser scale) calls)) \<le> MAX_BUFFER_SIZE
   \<and> appendBytes (buffer (runCalls ops (newParser scale) calls)) data
       = drop (length (buffer (runCalls ops (newParser scale) calls)) + length data - MAX_BUFFER_SIZE)
           (buffer (runCalls ops (newParser scale) calls) @ data)"
proof -
  have "length (buffer (runCalls ops (newParser scale) calls)) \<le> MAX_BUFFER_SIZE"
    by (rule runCalls_bounded) (simp add: newParser_def)
  then show ?thesis by (simp add: appendBytes_eq)
qed

subsection \<open>Facts about one pass of the loop\<close>

lemma appendBytes_fits:
  "length buf + length data \<le> MAX_BUFFER_SIZE \<Longrightarrow> appendBytes buf data = buf @ data"
  by (simp add: appendBytes_eq)

lemma findSync_SomeD:
  assumes "findSync s1 s2 buf ps = Some i"
  shows "i \<le> length buf - ps" "buf ! i = s1" "buf ! (i + 1) = s2"
    "\<And>j. j < i \<Longrightarrow> \<not> (buf ! j = s1 \<and> buf ! (j + 1) = s2)"
  using assms unfolding findSync_def find_Some_iff
  by (auto simp add: nth_upt less_Suc_eq_le simp del: upt_Suc)

lemma findSync_None_iff:
  "findSync s1 s2 buf ps = None \<longleftrightarrow> (\<forall>i \<le> length buf - ps. \<not> (buf ! i = s1 \<and> buf ! (i + 1) = s2))"
  unfolding findSync_def find_None_iff by (auto simp add: less_Suc_eq_le simp del: upt_Suc)

lemma findSync_at_0:
  "buf ! 0 = s1 \<Longrightarrow> buf ! 1 = s2 \<Longrightarrow> findSync s1 s2 buf ps = Some 0"
  by (simp add: findSync_def upt_rec [of 0] del: upt_Suc)

lemma getPacketSize_buffer [simp]: "getPacketSize (p\<lparr>buffer := b\<rparr>) = getPacketSize p"
  by (simp add: getPacketSize_def)

lemma getPacketSize_ge2: "2 \<le> getPacketSize p"
  by (simp add: getPacketSize_def)

lemma wellFormedPacket_buffer [simp]: "wellFormedPacket (p\<lparr>buffer := b\<rparr>) pkt = wellFormedPacket p pkt"
  by (simp add: wellFormedPacket_def)

lemma acceptedAt_buffer [simp]: "acceptedAt (p\<lparr>buffer := b\<rparr>) buf i = acceptedAt p buf i"
  by (simp add: acceptedAt_def)

lemma decodePacket_buffer [simp]: "decodePacket ops (p\<lparr>buffer := b\<rparr>) buf = decodePacket ops p buf"
  by (simp add: decodePacket_def)

lemma decodePacket_shape: "valid (decodePacket ops p buf) \<and> length (samples (decodePacket ops p buf)) = numChannels p"
  by (simp add: decodePacket_def)

lemma acceptedAt_drop:
  "k + i + 1 < length buf \<Longrightarrow> acceptedAt p (drop k buf) i = acceptedAt p buf (k + i)"
  by (simp add: acceptedAt_def add.commute)

lemma parseIter_checksum_fail:
  assumes "useChecksum p" and "getPacketSize p \<le> length (buffer p)"
    and "findSync (syncByte1 p) (syncByte2 p) (buffer p) (getPacketSize p) = Some syncPos"
    and "\<not> validateChecksum (drop syncPos (buffer p)) (getPacketSize p)"
  shows "parseIter ops p = Continue (tl (drop syncPos (buffer p))) []"
proof -
  have "syncPos \<le> length (buffer p) - getPacketSize p"
    using assms(3) by (rule findSync_SomeD)
  with assms(2) have "getPacketSize p \<le> length (buffer p) - syncPos" by simp
  with assms show ?thesis by (cases "syncPos = 0") (simp_all add: parseIter_def Let_def)
qed

lemma parseIter_accept:
  assumes "getPacketSize p \<le> length (buffer p)"
    and "findSync (syncByte1 p) (syncByte2 p) (buffer p) (getPacketSize p) = Some syncPos"
    and "useChecksum p \<longrightarrow> validateChecksum (drop syncPos (buffer p)) (getPacketSize p)"
  shows "parseIter ops p = Continue (drop (getPacketSize p) (drop syncPos (buffer p)))
                                    [decodePacket ops p (drop syncPos (buffer p))]"
proof -
  have "syncPos \<le> length (buffer p) - getPacketSize p"
    using assms(2) by (rule findSync_SomeD)
  with assms(1) have "getPacketSize p \<le> length (buffer p) - syncPos" by simp
  with assms show ?thesis by (cases "syncPos = 0") (simp_all add: parseIter_def Let_def)
qed

lemma parseLoop_no_sync:
  assumes "getPacketSize p \<le> length (buffer p)"
    and "findSync (syncByte1 p) (syncByte2 p) (buffer p) (getPacketSize p) = None"
  shows "parseLoop ops p packets = (p\<lparr>buffer := drop (length (buffer p) - 2) (buffer p)\<rparr>, packets)"
  using assms by (simp add: parseLoop.simps [of ops p packets] parseIter_def Let_def)

text \<open>
  Claim C8, as amended. When the buffer holds at least packetSize bytes and the scan finds no
  position with both sync bytes, the loop ends with the buffer trimmed to its last two bytes
  (exactly two remain), and no packet is added.
\<close>

theorem no_sync_keeps_last_two_bytes:
  assumes "getPacketSize p \<le> length (buffer p)"
    and "findSync (syncByte1 p) (syncByte2 p) (buffer p) (getPacketSize p) = None"
  shows "parseLoop ops p packets = (p\<lparr>buffer := drop (length (buffer p) - 2) (buffer p)\<rparr>, packets)
         \<and> length (buffer (fst (parseLoop ops p packets))) = 2"
proof -
  have "2 \<le> getPacketSize p" by (simp add: getPacketSize_def)
  with assms(1) have "2 \<le> length (buffer p)" by simp
  then show ?thesis using parseLoop_no_sync [OF assms] by simp
qed

theorem no_sync_keeps_last_two_bytes_witness:
  "getPacketSize (exampleParser\<lparr>buffer := [1, 2, 3, 4, 5, 6, 7, 8]\<rparr>) \<le> length [1, 2, 3, 4, 5, 6, 7, 8 :: byte]
   \<and> findSync 0xA0 0x5A [1, 2, 3, 4, 5, 6, 7, 8] 7 = None
   \<and> parseLoop intOps (exampleParser\<lparr>buffer := [1, 2, 3, 4, 5, 6, 7, 8]\<rparr>) []
       = (exampleParser\<lparr>buffer := [7, 8]\<rparr>, [])"
  using no_sync_keeps_last_two_bytes [of "exampleParser\<lparr>buffer := [1, 2, 3, 4, 5, 6, 7, 8]\<rparr>" intOps "[]"]
  by (simp add: getPacketSize_def exampleParser_def configure_def newParser_def findSync_def
  upt_rec)

text \<open>
  Claim C8 as stated (the buffer is trimmed to its last byte, or fewer) fails: eight bytes
  without a sync are parsed with packets of seven bytes, and two bytes stay in the buffer.
\<close>

theorem no_sync_retention_counterexample:
  "getPacketSize exampleParser \<le> length (appendBytes (buffer exampleParser) [1, 2, 3, 4, 5, 6, 7, 8])
   \<and> findSync (syncByte1 exampleParser) (syncByte2 exampleParser)
         (appendBytes (buffer exampleParser) [1, 2, 3, 4, 5, 6, 7, 8]) (getPacketSize exampleParser) = None
   \<and> \<not> length (buffer (fst (parse intOps exampleParser [1, 2, 3, 4, 5, 6, 7, 8]))) \<le> 1"
  by (simp add: parse_def appendBytes_fits parseLoop.simps parseIter_def findSync_def
      getPacketSize_def exampleParser_def configure_def newParser_def MAX_BUFFER_SIZE_def Let_def
      upt_rec del: appendBytes.simps)

subsection \<open>Recovery of a packet behind rejected sync candidates\<close>

lemma parseLoop_recovers:
  assumes "wellFormedPacket p pkt"
    and "buffer p = pre @ pkt"
    and "\<forall>i<length pre. \<not> acceptedAt p (pre @ pkt) i"
  shows "parseLoop ops p packets = (p\<lparr>buffer := []\<rparr>, packets @ [decodePacket ops p pkt])"
  using assms
proof (induction "length pre" arbitrary: p pre rule: less_induct)
  case less
  let ?ps = "getPacketSize p"
  let ?buf = "pre @ pkt"
  have len: "length pkt = ?ps" and s1: "pkt ! 0 = syncByte1 p" and s2: "pkt ! 1 = syncByte2 p"
    and ck: "useChecksum p \<longrightarrow> validateChecksum pkt ?ps"
    using less.prems(1) by (simp_all add: wellFormedPacket_def)
  have ps2: "2 \<le> ?ps" by (rule getPacketSize_ge2)
  have guard: "?ps \<le> length (buffer p)" using less.prems(2) len by simp
  have lim: "length (buffer p) - ?ps = length pre" using less.prems(2) len by simp
  have at_end: "buffer p ! length pre = syncByte1 p \<and> buffer p ! (length pre + 1) = syncByte2 p"
    using less.prems(2) s1 s2 len ps2 by (simp add: nth_append)
  then have "findSync (syncByte1 p) (syncByte2 p) (buffer p) ?ps \<noteq> None"
    unfolding findSync_None_iff lim by blast
  then obtain i where fs: "findSync (syncByte1 p) (syncByte2 p) (buffer p) ?ps = Some i"
    by blast
  have i_le: "i \<le> length pre" using findSync_SomeD(1) [OF fs] lim by simp
  have sync_i: "buffer p ! i = syncByte1 p" "buffer p ! (i + 1) = syncByte2 p"
    using findSync_SomeD(2,3) [OF fs] by simp_all
  show ?case
  proof (cases "i = length pre")
    case True
    then have win: "drop i (buffer p) = pkt" using less.prems(2) by simp
    have "parseIter ops p = Continue (drop ?ps (drop i (buffer p))) [decodePacket ops p (drop i (buffer p))]"
      using guard fs ck win by (intro parseIter_accept) simp_all
    then have it: "parseIter ops p = Continue [] [decodePacket ops p pkt]"
      using win len by simp
    have "parseLoop ops p packets = parseLoop ops (p\<lparr>buffer := []\<rparr>) (packets @ [decodePacket ops p pkt])"
      using guard it by (simp add: parseLoop.simps [of ops p packets])
    also have "\<dots> = (p\<lparr>buffer := []\<rparr>, packets @ [decodePacket ops p pkt])"
      using ps2 by (simp add: parseLoop.simps [of ops "p\<lparr>buffer := []\<rparr>"])
    finally show ?thesis .
  next
    case False
    with i_le have i_lt: "i < length pre" by simp
    have "\<not> acceptedAt p ?buf i" using less.prems(3) i_lt by blast
    with sync_i less.prems(2) have uc: "useChecksum p" and bad: "\<not> validateChecksum (drop i (buffer p)) ?ps"
      by (auto simp add: acceptedAt_def)
    have it: "parseIter ops p = Continue (tl (drop i (buffer p))) []"
      using uc guard fs bad by (rule parseIter_checksum_fail)
    let ?pre' = "drop (Suc i) pre"
    have rest: "tl (drop i (buffer p)) = ?pre' @ pkt"
      using less.prems(2) i_lt by (simp add: drop_Suc [symmetric] tl_drop)
    let ?p' = "p\<lparr>buffer := ?pre' @ pkt\<rparr>"
    have shorter: "length ?pre' < length pre" using i_lt by simp
    have rej': "\<forall>j<length ?pre'. \<not> acceptedAt ?p' (?pre' @ pkt) j"
    proof (intro allI impI)
      fix j assume j: "j < length ?pre'"
      then have idx: "Suc i + j < length pre" by simp
      have "?pre' @ pkt = drop (Suc i) ?buf" using i_lt by simp
      moreover have "acceptedAt p (drop (Suc i) ?buf) j = acceptedAt p ?buf (Suc i + j)"
        using idx len ps2 by (intro acceptedAt_drop) simp
      ultimately show "\<not> acceptedAt ?p' (?pre' @ pkt) j"
        using less.prems(3) idx by simp
    qed
    have "parseLoop ops p packets = parseLoop ops ?p' packets"
      using guard it rest by (simp add: parseLoop.simps [of ops p packets])
    also have "\<dots> = (?p'\<lparr>buffer := []\<rparr>, packets @ [decodePacket ops ?p' pkt])"
      using less.prems(1) rej' by (intro less.hyps [OF shorter]) simp_all
    finally show ?thesis by simp
  qed
qed

lemma parseLoopFuel_enough:
  "length (buffer p) < n \<Longrightarrow> parseLoopFuel n ops p packets = Some (parseLoop ops p packets)"
proof (induction n arbitrary: p packets)
  case 0
  then show ?case by simp
next
  case (Suc n)
  show ?case
  proof (cases "getPacketSize p \<le> length (buffer p)")
    case False
    then show ?thesis by (simp add: parseLoop.simps [of ops p packets])
  next
    case True
    show ?thesis
    proof (cases "parseIter ops p")
      case (Break buf)
      with True show ?thesis by (simp add: parseLoop.simps [of ops p packets])
    next
      case (Continue buf new)
      from parseIter_length(2) [OF True Continue] Suc.prems have "length buf < n" by simp
      then have "parseLoopFuel n ops (p\<lparr>buffer := buf\<rparr>) (packets @ new)
                 = Some (parseLoop ops (p\<lparr>buffer := buf\<rparr>) (packets @ new))"
        by (intro Suc.IH) simp
      with True Continue show ?thesis by (simp add: parseLoop.simps [of ops p packets])
    qed
  qed
qed

lemma validateChecksum_append:
  "length a = n \<Longrightarrow> 0 < n \<Longrightarrow> validateChecksum (a @ b) n = validateChecksum a n"
  by (simp add: validateChecksum_def nth_append)

text \<open>
  Claim C2, as amended. With the checksum enabled, when the window of packetSize bytes at the
  sync position found fails \<^verbatim>\<open>validateChecksum\<close>, the pass drops the bytes before the sync
  position and then exactly one byte more, adds no packet, and the loop goes on with the scan of
  the remainder; the parser has no error result. A packet with a corrupt checksum followed by a
  correct packet gives the correct packet alone, provided that no later position inside the
  corrupt packet is accepted as a packet start (both sync bytes there and a window that passes
  the checksum).
\<close>

theorem checksum_failure_skips_one_byte:
  "(useChecksum p \<and> getPacketSize p \<le> length (buffer p)
      \<and> findSync (syncByte1 p) (syncByte2 p) (buffer p) (getPacketSize p) = Some syncPos
      \<and> \<not> validateChecksum (drop syncPos (buffer p)) (getPacketSize p)
    \<longrightarrow> parseIter ops p = Continue (tl (drop syncPos (buffer p))) []
        \<and> parseLoop ops p packets
            = parseLoop ops (p\<lparr>buffer := tl (drop syncPos (buffer p))\<rparr>) packets
        \<and> length (tl (drop syncPos (buffer p))) + 1 = length (drop syncPos (buffer p)))
   \<and> (useChecksum p \<and> buffer p = []
      \<and> length bad = getPacketSize p \<and> bad ! 0 = syncByte1 p \<and> bad ! 1 = syncByte2 p
      \<and> \<not> validateChecksum bad (getPacketSize p)
      \<and> wellFormedPacket p good
      \<and> length (bad @ good) \<le> MAX_BUFFER_SIZE
      \<and> (\<forall>i<length bad. 0 < i \<longrightarrow> \<not> acceptedAt p (bad @ good) i)
    \<longrightarrow> parse ops p (bad @ good) = (p, [decodePacket ops p good]))"
proof (intro conjI impI)
  assume h: "useChecksum p \<and> getPacketSize p \<le> length (buffer p)
      \<and> findSync (syncByte1 p) (syncByte2 p) (buffer p) (getPacketSize p) = Some syncPos
      \<and> \<not> validateChecksum (drop syncPos (buffer p)) (getPacketSize p)"
  then show it: "parseIter ops p = Continue (tl (drop syncPos (buffer p))) []"
    by (intro parseIter_checksum_fail) simp_all
  with h show "parseLoop ops p packets
      = parseLoop ops (p\<lparr>buffer := tl (drop syncPos (buffer p))\<rparr>) packets"
    by (simp add: parseLoop.simps [of ops p packets])
  from h have "syncPos \<le> length (buffer p) - getPacketSize p"
    by (intro findSync_SomeD(1) [where ?s1.0 = "syncByte1 p" and ?s2.0 = "syncByte2 p"]) simp
  moreover from h have "getPacketSize p \<le> length (buffer p)" by simp
  ultimately have "0 < length (buffer p) - syncPos"
    using getPacketSize_ge2 [of p] by linarith
  then show "length (tl (drop syncPos (buffer p))) + 1 = length (drop syncPos (buffer p))"
    by simp
next
  assume h: "useChecksum p \<and> buffer p = []
      \<and> length bad = getPacketSize p \<and> bad ! 0 = syncByte1 p \<and> bad ! 1 = syncByte2 p
      \<and> \<not> validateChecksum bad (getPacketSize p)
      \<and> wellFormedPacket p good
      \<and> length (bad @ good) \<le> MAX_BUFFER_SIZE
      \<and> (\<forall>i<length bad. 0 < i \<longrightarrow> \<not> acceptedAt p (bad @ good) i)"
  have ps: "0 < getPacketSize p" using getPacketSize_ge2 [of p] by simp
  have "validateChecksum (bad @ good) (getPacketSize p) = validateChecksum bad (getPacketSize p)"
    using h ps by (intro validateChecksum_append) simp_all
  with h have first: "\<not> acceptedAt p (bad @ good) 0"
    by (simp add: acceptedAt_def)
  have rej: "\<forall>i<length bad. \<not> acceptedAt p (bad @ good) i"
  proof (intro allI impI)
    fix i
    assume "i < length bad"
    with h first show "\<not> acceptedAt p (bad @ good) i"
      by (cases "i = 0") simp_all
  qed
  from h have "appendBytes (buffer p) (bad @ good) = bad @ good"
    using appendBytes_fits [of "buffer p" "bad @ good"] by simp
  then have "parse ops p (bad @ good) = parseLoop ops (p\<lparr>buffer := bad @ good\<rparr>) []"
    by (simp add: parse_def)
  also have "\<dots> = (p\<lparr>buffer := bad @ good, buffer := []\<rparr>,
                      [] @ [decodePacket ops (p\<lparr>buffer := bad @ good\<rparr>) good])"
    using h rej by (intro parseLoop_recovers [where pre = bad]) simp_all
  also have "\<dots> = (p, [decodePacket ops p good])"
    using h by simp
  finally show "parse ops p (bad @ good) = (p, [decodePacket ops p good])" .
qed

theorem checksum_failure_skips_one_byte_witness:
  "useChecksum exampleParser
   \<and> \<not> validateChecksum [0xA0, 0x5A, 0x00, 0x0A, 0x00, 0x14, 0xFF] 7
   \<and> wellFormedPacket exampleParser [0xA0, 0x5A, 0x00, 0x01, 0x00, 0x02, 0xF9]
   \<and> parse intOps exampleParser
         ([0xA0, 0x5A, 0x00, 0x0A, 0x00, 0x14, 0xFF] @ [0xA0, 0x5A, 0x00, 0x01, 0x00, 0x02, 0xF9])
       = (exampleParser, [\<lparr>samples = [1, 2], timestamp = 0, valid = True\<rparr>])
   \<and> parseIter intOps
         (exampleParser\<lparr>buffer :=
            [0xA0, 0x5A, 0x00, 0x0A, 0x00, 0x14, 0xFF, 0xA0, 0x5A, 0x00, 0x01, 0x00, 0x02, 0xF9]\<rparr>)
       = Continue [0x5A, 0x00, 0x0A, 0x00, 0x14, 0xFF, 0xA0, 0x5A, 0x00, 0x01, 0x00, 0x02, 0xF9] []"
  using checksum_failure_skips_one_byte
    [of "exampleParser\<lparr>buffer :=
            [0xA0, 0x5A, 0x00, 0x0A, 0x00, 0x14, 0xFF, 0xA0, 0x5A, 0x00, 0x01, 0x00, 0x02, 0xF9]\<rparr>"
        0 intOps "[]" "[]" "[]"]
    checksum_failure_skips_one_byte
    [of exampleParser 0 intOps "[]" "[0xA0, 0x5A, 0x00, 0x0A, 0x00, 0x14, 0xFF]"
        "[0xA0, 0x5A, 0x00, 0x01, 0x00, 0x02, 0xF9]"]
  by (simp add: wellFormedPacket_def acceptedAt_def validateChecksum_def getPacketSize_def
      exampleParser_def configure_def newParser_def MAX_BUFFER_SIZE_def findSync_def
      decodePacket_def bytesToSample_def rawValue_def int32ToFloat_exact b32_def intOps_def upt_rec
      All_less_Suc)

text \<open>
  Claim C2 as stated (a corrupt-checksum packet followed by a correct packet yields only the
  correct packet) fails: the packet A0 5A 01 A0 5A 07 with the corrupt checksum 07 (06 is the
  right one) has the sync bytes in its payload, and after the one-byte skip the window
  A0 5A 07 07 A0 5A 00 that starts there passes the checksum. The parser returns the packet
  (1799, -24486) decoded from that window and loses the correct packet (1, 2), of which only four
  bytes are left in the buffer.
\<close>

theorem checksum_retry_counterexample:
  "useChecksum exampleParser \<and> buffer exampleParser = []
   \<and> length [0xA0, 0x5A, 0x01, 0xA0, 0x5A, 0x07, 0x07 :: byte] = getPacketSize exampleParser
   \<and> [0xA0, 0x5A, 0x01, 0xA0, 0x5A, 0x07, 0x07] ! 0 = syncByte1 exampleParser
   \<and> [0xA0, 0x5A, 0x01, 0xA0, 0x5A, 0x07, 0x07] ! 1 = syncByte2 exampleParser
   \<and> \<not> validateChecksum [0xA0, 0x5A, 0x01, 0xA0, 0x5A, 0x07, 0x07] (getPacketSize exampleParser)
   \<and> wellFormedPacket exampleParser [0xA0, 0x5A, 0x00, 0x01, 0x00, 0x02, 0xF9]
   \<and> decodePacket intOps exampleParser [0xA0, 0x5A, 0x00, 0x01, 0x00, 0x02, 0xF9]
       = \<lparr>samples = [1, 2], timestamp = 0, valid = True\<rparr>
   \<and> parse intOps exampleParser
         ([0xA0, 0x5A, 0x01, 0xA0, 0x5A, 0x07, 0x07] @ [0xA0, 0x5A, 0x00, 0x01, 0x00, 0x02, 0xF9])
       = (exampleParser\<lparr>buffer := [0x01, 0x00, 0x02, 0xF9]\<rparr>,
          [\<lparr>samples = [1799, - 24486], timestamp = 0, valid = True\<rparr>])"
  by (simp add: parse_def appendBytes_fits parseLoop.simps parseIter_def findSync_def
      wellFormedPacket_def validateChecksum_def decodePacket_def bytesToSample_def rawValue_def
      int32ToFloat_exact b32_def getPacketSize_def exampleParser_def configure_def newParser_def
      intOps_def MAX_BUFFER_SIZE_def Let_def upt_rec del: appendBytes.simps)

text \<open>
  Claim C3. For every configuration whose packet fits the frame buffer (every configuration of
  the documented ranges does: at most 1027 bytes), a single call of parse on an empty buffer
  with one garbage byte followed by one well-formed packet returns exactly one packet, flagged
  valid, with one sample per channel; it is the decoding of the given packet unless the garbage
  byte and both sync bytes are the same byte. The bytes taken out of the buffer are at most
  packetSize + 1.
\<close>

theorem resync_after_one_garbage_byte:
  assumes "wellFormedPacket p pkt" and "buffer p = []" and "getPacketSize p \<le> MAX_BUFFER_SIZE"
  shows "(\<exists>packet. snd (parse ops p (g # pkt)) = [packet] \<and> valid packet
            \<and> length (samples packet) = numChannels p
            \<and> (\<not> (g = syncByte1 p \<and> syncByte2 p = syncByte1 p) \<longrightarrow> packet = decodePacket ops p pkt))
         \<and> length (g # pkt) - length (buffer (fst (parse ops p (g # pkt)))) \<le> getPacketSize p + 1"
proof -
  let ?ps = "getPacketSize p"
  have len: "length pkt = ?ps" and s1: "pkt ! 0 = syncByte1 p"
    using assms(1) by (simp_all add: wellFormedPacket_def)
  have ps2: "2 \<le> ?ps" by (rule getPacketSize_ge2)
  have consumed: "length (g # pkt) - length (buffer (fst (parse ops p (g # pkt)))) \<le> ?ps + 1"
    using len by simp
  have "\<exists>packet. snd (parse ops p (g # pkt)) = [packet] \<and> valid packet
            \<and> length (samples packet) = numChannels p
            \<and> (\<not> (g = syncByte1 p \<and> syncByte2 p = syncByte1 p) \<longrightarrow> packet = decodePacket ops p pkt)"
  proof (cases "?ps = MAX_BUFFER_SIZE")
    case True
    then have "appendBytes (buffer p) (g # pkt) = pkt"
      using assms(2) len by (simp add: appendBytes_eq)
    then have "parse ops p (g # pkt) = parseLoop ops (p\<lparr>buffer := pkt\<rparr>) []"
      by (simp add: parse_def)
    also have "\<dots> = (p\<lparr>buffer := pkt, buffer := []\<rparr>, [] @ [decodePacket ops (p\<lparr>buffer := pkt\<rparr>) pkt])"
      using assms(1) by (intro parseLoop_recovers [where pre = "[]"]) simp_all
    finally show ?thesis by (simp add: decodePacket_shape)
  next
    case False
    with assms(3) have "length (buffer p) + length (g # pkt) \<le> MAX_BUFFER_SIZE"
      using assms(2) len by simp
    then have "appendBytes (buffer p) (g # pkt) = g # pkt"
      using assms(2) appendBytes_fits [of "buffer p" "g # pkt"] by simp
    then have parse_eq: "parse ops p (g # pkt) = parseLoop ops (p\<lparr>buffer := g # pkt\<rparr>) []"
      by (simp add: parse_def)
    show ?thesis
    proof (cases "acceptedAt p (g # pkt) 0")
      case False
      have "parseLoop ops (p\<lparr>buffer := g # pkt\<rparr>) []
            = (p\<lparr>buffer := g # pkt, buffer := []\<rparr>, [] @ [decodePacket ops (p\<lparr>buffer := g # pkt\<rparr>) pkt])"
        using assms(1) False by (intro parseLoop_recovers [where pre = "[g]"]) simp_all
      with parse_eq show ?thesis by (simp add: decodePacket_shape)
    next
      case True
      let ?p = "p\<lparr>buffer := g # pkt\<rparr>"
      from True have g: "g = syncByte1 p" and p0: "pkt ! 0 = syncByte2 p"
        and ck: "useChecksum p \<longrightarrow> validateChecksum (g # pkt) ?ps"
        by (auto simp add: acceptedAt_def)
      have fs: "findSync (syncByte1 ?p) (syncByte2 ?p) (buffer ?p) (getPacketSize ?p) = Some 0"
        using g p0 by (intro findSync_at_0) simp_all
      have "parseIter ops ?p = Continue (drop (getPacketSize ?p) (drop 0 (buffer ?p)))
                                        [decodePacket ops ?p (drop 0 (buffer ?p))]"
        using fs ck len by (intro parseIter_accept) simp_all
      then have it: "parseIter ops ?p = Continue (drop ?ps (g # pkt)) [decodePacket ops p (g # pkt)]"
        by simp
      have short: "length (drop ?ps (g # pkt)) < ?ps" using len ps2 by simp
      have "parseLoop ops ?p [] = parseLoop ops (p\<lparr>buffer := drop ?ps (g # pkt)\<rparr>) [decodePacket ops p (g # pkt)]"
        using it len by (simp add: parseLoop.simps [of ops ?p])
      also have "\<dots> = (p\<lparr>buffer := drop ?ps (g # pkt)\<rparr>, [decodePacket ops p (g # pkt)])"
        using short by (simp add: parseLoop.simps [of ops "p\<lparr>buffer := drop ?ps (g # pkt)\<rparr>"])
      finally have "snd (parse ops p (g # pkt)) = [decodePacket ops p (g # pkt)]"
        using parse_eq by simp
      moreover have "g = syncByte1 p \<and> syncByte2 p = syncByte1 p" using g p0 s1 by simp
      ultimately show ?thesis by (simp add: decodePacket_shape)
    qed
  qed
  with consumed show ?thesis by blast
qed

theorem resync_after_one_garbage_byte_witness:
  "wellFormedPacket exampleParser [0xA0, 0x5A, 0x00, 0x0A, 0x00, 0x14, 0xE4]
   \<and> buffer exampleParser = []
   \<and> getPacketSize exampleParser \<le> MAX_BUFFER_SIZE
   \<and> snd (parse intOps exampleParser (0x33 # [0xA0, 0x5A, 0x00, 0x0A, 0x00, 0x14, 0xE4]))
       = [decodePacket intOps exampleParser [0xA0, 0x5A, 0x00, 0x0A, 0x00, 0x14, 0xE4]]
   \<and> decodePacket intOps exampleParser [0xA0, 0x5A, 0x00, 0x0A, 0x00, 0x14, 0xE4]
       = \<lparr>samples = [10, 20], timestamp = 0, valid = True\<rparr>"
  using resync_after_one_garbage_byte
    [of exampleParser "[0xA0, 0x5A, 0x00, 0x0A, 0x00, 0x14, 0xE4]" intOps "0x33"]
  by (simp add: wellFormedPacket_def validateChecksum_def getPacketSize_def exampleParser_def
      configure_def newParser_def MAX_BUFFER_SIZE_def decodePacket_def bytesToSample_def
      rawValue_def int32ToFloat_exact b32_def
      intOps_def upt_rec)

text \<open>
  Claim C4. parse terminates on every input: the loop of a call is over after at most one pass
  more than the number of buffered bytes (with that bound the bounded loop returns, and returns
  the result of parse). And a well-formed packet at the end of a stream is returned, alone,
  whenever every earlier position is rejected (no sync there, or a sync whose window fails the
  checksum): the false starts are used up one byte at a time.
\<close>

theorem parse_terminates_and_recovers:
  "parseLoopFuel (Suc (length (appendBytes (buffer p) data))) ops
       (p\<lparr>buffer := appendBytes (buffer p) data\<rparr>) [] = Some (parse ops p data)
   \<and> (wellFormedPacket p pkt \<and> buffer p = [] \<and> length (pre @ pkt) \<le> MAX_BUFFER_SIZE
        \<and> (\<forall>i<length pre. \<not> acceptedAt p (pre @ pkt) i)
      \<longrightarrow> parse ops p (pre @ pkt) = (p, [decodePacket ops p pkt]))"
proof (intro conjI impI)
  show "parseLoopFuel (Suc (length (appendBytes (buffer p) data))) ops
       (p\<lparr>buffer := appendBytes (buffer p) data\<rparr>) [] = Some (parse ops p data)"
    unfolding parse_def by (rule parseLoopFuel_enough) simp
next
  assume h: "wellFormedPacket p pkt \<and> buffer p = [] \<and> length (pre @ pkt) \<le> MAX_BUFFER_SIZE
        \<and> (\<forall>i<length pre. \<not> acceptedAt p (pre @ pkt) i)"
  then have "appendBytes (buffer p) (pre @ pkt) = pre @ pkt"
    using appendBytes_fits [of "buffer p" "pre @ pkt"] by simp
  then have "parse ops p (pre @ pkt) = parseLoop ops (p\<lparr>buffer := pre @ pkt\<rparr>) []"
    by (simp add: parse_def)
  also have "\<dots> = (p\<lparr>buffer := pre @ pkt, buffer := []\<rparr>, [] @ [decodePacket ops (p\<lparr>buffer := pre @ pkt\<rparr>) pkt])"
    using h by (intro parseLoop_recovers [where pre = pre]) simp_all
  also have "\<dots> = (p, [decodePacket ops p pkt])"
    using h by simp
  finally show "parse ops p (pre @ pkt) = (p, [decodePacket ops p pkt])" .
qed

theorem parse_terminates_and_recovers_witness:
  "wellFormedPacket exampleParser [0xA0, 0x5A, 0x00, 0x0A, 0x00, 0x14, 0xE4]
   \<and> \<not> acceptedAt exampleParser ([0xA0, 0x5A, 0xA0, 0x5A, 0x00] @ [0xA0, 0x5A, 0x00, 0x0A, 0x00, 0x14, 0xE4]) 0
   \<and> \<not> acceptedAt exampleParser ([0xA0, 0x5A, 0xA0, 0x5A, 0x00] @ [0xA0, 0x5A, 0x00, 0x0A, 0x00, 0x14, 0xE4]) 2
   \<and> parse intOps exampleParser ([0xA0, 0x5A, 0xA0, 0x5A, 0x00] @ [0xA0, 0x5A, 0x00, 0x0A, 0x00, 0x14, 0xE4])
       = (exampleParser, [\<lparr>samples = [10, 20], timestamp = 0, valid = True\<rparr>])"
  using parse_terminates_and_recovers
    [of exampleParser "[]" intOps "[0xA0, 0x5A, 0x00, 0x0A, 0x00, 0x14, 0xE4]" "[0xA0, 0x5A, 0xA0, 0x5A, 0x00]"]
  by (simp add: wellFormedPacket_def acceptedAt_def validateChecksum_def getPacketSize_def
      exampleParser_def configure_def newParser_def MAX_BUFFER_SIZE_def decodePacket_def
      bytesToSample_def rawValue_def int32ToFloat_exact b32_def intOps_def upt_rec All_less_Suc)

text \<open>
  Claim C1 does not hold of the code. The stream 00 A0 5A 00 0A 00 14 E4 (one garbage byte, then a
  well-formed packet) gives the packet (10, 20) in a single call, and no packet when it is
  delivered one byte at a time, or in the two pieces of seven bytes and one byte: with seven
  bytes buffered the only position scanned is 0, no sync is found there, and the buffer is cut
  to its last two bytes, which discards the packet received so far.
\<close>

theorem fragmentation_changes_packets:
  "snd (parse intOps exampleParser [0x00, 0xA0, 0x5A, 0x00, 0x0A, 0x00, 0x14, 0xE4])
     = [\<lparr>samples = [10, 20], timestamp = 0, valid = True\<rparr>]
   \<and> snd (parseChunks intOps exampleParser
           (map (\<lambda>b. [b]) [0x00, 0xA0, 0x5A, 0x00, 0x0A, 0x00, 0x14, 0xE4])) = []
   \<and> snd (parseChunks intOps exampleParser
           [[0x00, 0xA0, 0x5A, 0x00, 0x0A, 0x00, 0x14], [0xE4]]) = []"
  by (simp add: parse_def appendBytes_fits parseLoop.simps parseIter_def findSync_def
      validateChecksum_def decodePacket_def bytesToSample_def rawValue_def int32ToFloat_exact
      b32_def getPacketSize_def
      exampleParser_def configure_def newParser_def intOps_def MAX_BUFFER_SIZE_def Let_def upt_rec
      del: appendBytes.simps)

subsection \<open>Sample numbers and timestamps of the published packets\<close>

lemma parseIter_valid:
  "parseIter ops p = Continue buf new \<Longrightarrow> \<forall>pk\<in>set new. valid pk"
  by (auto simp add: parseIter_def Let_def decodePacket_def split: option.splits if_splits)

lemma parseLoop_valid:
  "\<forall>pk\<in>set packets. valid pk \<Longrightarrow> \<forall>pk\<in>set (snd (parseLoop ops p packets)). valid pk"
proof (induction ops p packets rule: parseLoop.induct)
  case (1 ops p packets)
  show ?case
  proof (cases "getPacketSize p \<le> length (buffer p)")
    case False
    with "1.prems" show ?thesis by (simp add: parseLoop.simps [of ops p packets])
  next
    case True
    show ?thesis
    proof (cases "parseIter ops p")
      case (Break buf)
      with True "1.prems" show ?thesis by (simp add: parseLoop.simps [of ops p packets])
    next
      case (Continue buf new)
      have "\<forall>pk\<in>set (packets @ new). valid pk"
        using "1.prems" parseIter_valid [OF Continue] by auto
      from "1.IH" [OF True Continue this] True Continue show ?thesis
        by (simp add: parseLoop.simps [of ops p packets])
    qed
  qed
qed

lemma parse_valid: "\<forall>pk\<in>set (snd (parse ops p data)). valid pk"
  unfolding parse_def by (rule parseLoop_valid) simp

lemma initialTimestamp_same:
  "initialTimestamp t = v \<Longrightarrow>
     t\<lparr>sampleNumbers := a, initialTimestamp := v, timestampBuffer := b\<rparr>
       = t\<lparr>sampleNumbers := a, timestampBuffer := b\<rparr>"
  by (cases t) simp

lemma publish_step:
  assumes "timeArith d (sampleRate t)" and "valid packet"
    and "(initialTimestamp t = ofInt d (- 1) \<and> totalSamples t + int i = 0) \<or> initialTimestamp t = ofInt d 0"
  shows "publishLoop d (packet # rest) i t =
         publishLoop d rest (Suc i)
           (t\<lparr> sampleNumbers := (sampleNumbers t)[i := totalSamples t + int i],
               initialTimestamp := ofInt d 0,
               timestampBuffer := (timestampBuffer t)
                  [i := ddiv d (ofInt d (totalSamples t + int i)) (sampleRate t)] \<rparr>)"
  using assms by (auto simp add: timeArith_def Let_def initialTimestamp_same)

lemma publishLoop_spec:
  assumes "timeArith d (sampleRate t)" and "\<forall>pk\<in>set packets. valid pk"
    and "(initialTimestamp t = ofInt d (- 1) \<and> totalSamples t + int i = 0) \<or> initialTimestamp t = ofInt d 0"
    and "i + length packets \<le> length (sampleNumbers t)"
    and "i + length packets \<le> length (timestampBuffer t)"
  shows "totalSamples (publishLoop d packets i t) = totalSamples t
    \<and> sampleRate (publishLoop d packets i t) = sampleRate t
    \<and> parser (publishLoop d packets i t) = parser t
    \<and> bufferSize (publishLoop d packets i t) = bufferSize t
    \<and> length (sampleNumbers (publishLoop d packets i t)) = length (sampleNumbers t)
    \<and> length (timestampBuffer (publishLoop d packets i t)) = length (timestampBuffer t)
    \<and> initialTimestamp (publishLoop d packets i t) = (if packets = [] then initialTimestamp t else ofInt d 0)
    \<and> (\<forall>j<i. sampleNumbers (publishLoop d packets i t) ! j = sampleNumbers t ! j
              \<and> timestampBuffer (publishLoop d packets i t) ! j = timestampBuffer t ! j)
    \<and> (\<forall>j. i \<le> j \<and> j < i + length packets \<longrightarrow>
           sampleNumbers (publishLoop d packets i t) ! j = totalSamples t + int j
         \<and> timestampBuffer (publishLoop d packets i t) ! j
             = ddiv d (ofInt d (totalSamples t + int j)) (sampleRate t))"
  using assms
proof (induction packets arbitrary: i t)
  case Nil
  then show ?case by auto
next
  case (Cons packet rest)
  let ?t = "t\<lparr> sampleNumbers := (sampleNumbers t)[i := totalSamples t + int i],
               initialTimestamp := ofInt d 0,
               timestampBuffer := (timestampBuffer t)
                  [i := ddiv d (ofInt d (totalSamples t + int i)) (sampleRate t)] \<rparr>"
  have v: "valid packet" and vs: "\<forall>pk\<in>set rest. valid pk" using Cons.prems(2) by simp_all
  have step: "publishLoop d (packet # rest) i t = publishLoop d rest (Suc i) ?t"
    using Cons.prems(1) v Cons.prems(3) by (rule publish_step)
  have i1: "i < length (sampleNumbers t)" and i2: "i < length (timestampBuffer t)"
    using Cons.prems(4,5) by simp_all
  have IH: "totalSamples (publishLoop d rest (Suc i) ?t) = totalSamples ?t
    \<and> sampleRate (publishLoop d rest (Suc i) ?t) = sampleRate ?t
    \<and> parser (publishLoop d rest (Suc i) ?t) = parser ?t
    \<and> bufferSize (publishLoop d rest (Suc i) ?t) = bufferSize ?t
    \<and> length (sampleNumbers (publishLoop d rest (Suc i) ?t)) = length (sampleNumbers ?t)
    \<and> length (timestampBuffer (publishLoop d rest (Suc i) ?t)) = length (timestampBuffer ?t)
    \<and> initialTimestamp (publishLoop d rest (Suc i) ?t) = (if rest = [] then initialTimestamp ?t else ofInt d 0)
    \<and> (\<forall>j<Suc i. sampleNumbers (publishLoop d rest (Suc i) ?t) ! j = sampleNumbers ?t ! j
              \<and> timestampBuffer (publishLoop d rest (Suc i) ?t) ! j = timestampBuffer ?t ! j)
    \<and> (\<forall>j. Suc i \<le> j \<and> j < Suc i + length rest \<longrightarrow>
           sampleNumbers (publishLoop d rest (Suc i) ?t) ! j = totalSamples ?t + int j
         \<and> timestampBuffer (publishLoop d rest (Suc i) ?t) ! j
             = ddiv d (ofInt d (totalSamples ?t + int j)) (sampleRate ?t))"
    by (rule Cons.IH) (use Cons.prems(1) vs Cons.prems(4,5) in simp_all)
  define r where "r = publishLoop d rest (Suc i) ?t"
  note IH' = IH [folded r_def]
  have a: "totalSamples r = totalSamples t" and b: "sampleRate r = sampleRate t"
    and c: "parser r = parser t" and c': "bufferSize r = bufferSize t"
    and la: "length (sampleNumbers r) = length (sampleNumbers t)"
    and lb: "length (timestampBuffer r) = length (timestampBuffer t)"
    and it: "initialTimestamp r = ofInt d 0"
    using IH' by (simp_all split: if_splits)
  have low: "sampleNumbers r ! j = sampleNumbers ?t ! j \<and> timestampBuffer r ! j = timestampBuffer ?t ! j"
    if "j < Suc i" for j
    using IH' that by blast
  have high: "sampleNumbers r ! j = totalSamples t + int j
         \<and> timestampBuffer r ! j = ddiv d (ofInt d (totalSamples t + int j)) (sampleRate t)"
    if "Suc i \<le> j" and "j < Suc i + length rest" for j
  proof -
    have "sampleNumbers r ! j = totalSamples ?t + int j
         \<and> timestampBuffer r ! j = ddiv d (ofInt d (totalSamples ?t + int j)) (sampleRate ?t)"
      using IH' that by blast
    then show ?thesis by simp
  qed
  have below: "sampleNumbers r ! j = sampleNumbers t ! j \<and> timestampBuffer r ! j = timestampBuffer t ! j"
    if "j < i" for j
    using low [of j] that by simp
  have at_i: "sampleNumbers r ! i = totalSamples t + int i
         \<and> timestampBuffer r ! i = ddiv d (ofInt d (totalSamples t + int i)) (sampleRate t)"
    using low [of i] i1 i2 by simp
  have above: "sampleNumbers r ! j = totalSamples t + int j
         \<and> timestampBuffer r ! j = ddiv d (ofInt d (totalSamples t + int j)) (sampleRate t)"
    if "i \<le> j" and "j < i + length (packet # rest)" for j
  proof (cases "j = i")
    case True
    then show ?thesis using at_i by simp
  next
    case False
    with that show ?thesis by (intro high) simp_all
  qed
  show ?case
    unfolding step r_def [symmetric]
    using a b c c' la lb it below above by simp
qed

lemma updateBuffer_spec:
  assumes arith: "timeArith d (sampleRate t)"
    and anchor: "(initialTimestamp t = ofInt d (- 1) \<and> totalSamples t = 0) \<or> initialTimestamp t = ofInt d 0"
    and l1: "length (sampleNumbers t) = bufferSize t" and l2: "length (timestampBuffer t) = bufferSize t"
    and run: "updateBuffer ops d t bytes = Some (t1, out)"
  shows "out = map (\<lambda>k. (totalSamples t + int k,
                          ddiv d (ofInt d (totalSamples t + int k)) (sampleRate t))) [0..<length out]
    \<and> totalSamples t1 = totalSamples t + int (length out)
    \<and> sampleRate t1 = sampleRate t
    \<and> length (sampleNumbers t1) = bufferSize t1 \<and> length (timestampBuffer t1) = bufferSize t1
    \<and> initialTimestamp t1 = (if out = [] then initialTimestamp t else ofInt d 0)"
proof (cases "bytes = [] \<or> snd (parse ops (parser t) bytes) = []")
  case True
  with run have "out = []" and "t1 = t \<or> t1 = t\<lparr>parser := fst (parse ops (parser t) bytes)\<rparr>"
    by (auto simp add: updateBuffer_def Let_def split_beta split: if_splits)
  with l1 l2 show ?thesis by auto
next
  case False
  let ?packets = "snd (parse ops (parser t) bytes)"
  let ?n = "length ?packets"
  let ?t = "t\<lparr>parser := fst (parse ops (parser t) bytes)\<rparr>"
  let ?t1 = "publishLoop d ?packets 0 ?t"
  from False have ne: "?packets \<noteq> []" and pos: "0 < ?n" by simp_all
  from run False have fit: "?n \<le> bufferSize t"
    by (auto simp add: updateBuffer_def Let_def split_beta split: if_splits)
  from run False fit have t1: "t1 = ?t1\<lparr>totalSamples := totalSamples ?t1 + int ?n\<rparr>"
    and out: "out = zip (take ?n (sampleNumbers ?t1)) (take ?n (timestampBuffer ?t1))"
    by (auto simp add: updateBuffer_def Let_def split_beta split: if_splits)
  have spec: "totalSamples ?t1 = totalSamples ?t
    \<and> sampleRate ?t1 = sampleRate ?t
    \<and> parser ?t1 = parser ?t
    \<and> bufferSize ?t1 = bufferSize ?t
    \<and> length (sampleNumbers ?t1) = length (sampleNumbers ?t)
    \<and> length (timestampBuffer ?t1) = length (timestampBuffer ?t)
    \<and> initialTimestamp ?t1 = (if ?packets = [] then initialTimestamp ?t else ofInt d 0)
    \<and> (\<forall>j<0. sampleNumbers ?t1 ! j = sampleNumbers ?t ! j
              \<and> timestampBuffer ?t1 ! j = timestampBuffer ?t ! j)
    \<and> (\<forall>j. 0 \<le> j \<and> j < 0 + ?n \<longrightarrow>
           sampleNumbers ?t1 ! j = totalSamples ?t + int j
         \<and> timestampBuffer ?t1 ! j = ddiv d (ofInt d (totalSamples ?t + int j)) (sampleRate ?t))"
    by (rule publishLoop_spec)
      (use arith anchor l1 l2 fit parse_valid [of ops "parser t" bytes] in simp_all)
  have len_out: "length out = ?n"
    using out spec l1 l2 fit by simp
  have "out = map (\<lambda>k. (totalSamples t + int k,
                          ddiv d (ofInt d (totalSamples t + int k)) (sampleRate t))) [0..<length out]"
  proof (rule nth_equalityI)
    show "length out = length (map (\<lambda>k. (totalSamples t + int k,
                          ddiv d (ofInt d (totalSamples t + int k)) (sampleRate t))) [0..<length out])"
      by simp
  next
    fix j assume "j < length out"
    then have j: "j < ?n" using len_out by simp
    then have "out ! j = (sampleNumbers ?t1 ! j, timestampBuffer ?t1 ! j)"
      using out spec l1 l2 fit by simp
    also have "\<dots> = (totalSamples t + int j, ddiv d (ofInt d (totalSamples t + int j)) (sampleRate t))"
      using spec j by simp
    finally show "out ! j = map (\<lambda>k. (totalSamples t + int k,
                          ddiv d (ofInt d (totalSamples t + int k)) (sampleRate t))) [0..<length out] ! j"
      using \<open>j < length out\<close> by simp
  qed
  moreover have "out \<noteq> []" using len_out pos by auto
  ultimately show ?thesis
    using t1 spec l1 l2 len_out ne by simp
qed

lemma acquire_spec:
  assumes "timeArith d (sampleRate t)"
    and "(initialTimestamp t = ofInt d (- 1) \<and> totalSamples t = 0) \<or> initialTimestamp t = ofInt d 0"
    and "length (sampleNumbers t) = bufferSize t" and "length (timestampBuffer t) = bufferSize t"
    and "acquire ops d t reads = Some (t', published)"
  shows "published = map (\<lambda>k. (totalSamples t + int k,
                          ddiv d (ofInt d (totalSamples t + int k)) (sampleRate t))) [0..<length published]
    \<and> totalSamples t' = totalSamples t + int (length published)"
  using assms
proof (induction reads arbitrary: t published)
  case Nil
  then show ?case by simp
next
  case (Cons bytes reads)
  from Cons.prems(5) obtain t1 out1 out2
    where u: "updateBuffer ops d t bytes = Some (t1, out1)"
      and r: "acquire ops d t1 reads = Some (t', out2)"
      and p: "published = out1 @ out2"
    by (auto split: option.splits)
  let ?f = "\<lambda>T k. (T + int k, ddiv d (ofInt d (T + int k)) (sampleRate t))"
  have s1: "out1 = map (?f (totalSamples t)) [0..<length out1]"
    and tot1: "totalSamples t1 = totalSamples t + int (length out1)"
    and rate1: "sampleRate t1 = sampleRate t"
    and la: "length (sampleNumbers t1) = bufferSize t1" and lb: "length (timestampBuffer t1) = bufferSize t1"
    and init1: "initialTimestamp t1 = (if out1 = [] then initialTimestamp t else ofInt d 0)"
    using updateBuffer_spec [OF Cons.prems(1-4) u] by simp_all
  have anchor1: "(initialTimestamp t1 = ofInt d (- 1) \<and> totalSamples t1 = 0) \<or> initialTimestamp t1 = ofInt d 0"
    using Cons.prems(2) init1 tot1 by (cases "out1 = []") simp_all
  have arith1: "timeArith d (sampleRate t1)" using Cons.prems(1) rate1 by simp
  have s2: "out2 = map (?f (totalSamples t1)) [0..<length out2]"
    and tot2: "totalSamples t' = totalSamples t1 + int (length out2)"
    using Cons.IH [OF arith1 anchor1 la lb r] rate1 by simp_all
  have "published = map (?f (totalSamples t)) [0..<length published]"
  proof (rule nth_equalityI)
    show "length published = length (map (?f (totalSamples t)) [0..<length published])" by simp
  next
    fix j assume j: "j < length published"
    show "published ! j = map (?f (totalSamples t)) [0..<length published] ! j"
    proof (cases "j < length out1")
      case True
      then have "published ! j = out1 ! j" using p by (simp add: nth_append)
      also have "\<dots> = map (?f (totalSamples t)) [0..<length out1] ! j" using s1 by simp
      also have "\<dots> = ?f (totalSamples t) j" using True by simp
      finally show ?thesis using j by simp
    next
      case False
      then have k: "j - length out1 < length out2" using j p by simp
      have "published ! j = out2 ! (j - length out1)" using False p by (simp add: nth_append)
      also have "\<dots> = map (?f (totalSamples t1)) [0..<length out2] ! (j - length out1)" using s2 by simp
      also have "\<dots> = ?f (totalSamples t1) (j - length out1)" using k by simp
      also have "\<dots> = ?f (totalSamples t) j" using False tot1 by simp
      finally show ?thesis using j by simp
    qed
  qed
  moreover have "totalSamples t' = totalSamples t + int (length published)"
    using tot1 tot2 p by simp
  ultimately show ?case by simp
qed

lemma parseIter_count:
  assumes "getPacketSize p \<le> length (buffer p)" and "parseIter ops p = Continue buf new"
  shows "length new * getPacketSize p + length buf \<le> length (buffer p)"
proof (cases "findSync (syncByte1 p) (syncByte2 p) (buffer p) (getPacketSize p)")
  case None
  with assms(2) show ?thesis by (simp add: parseIter_def Let_def)
next
  case (Some i)
  have "i \<le> length (buffer p) - getPacketSize p" using Some by (rule findSync_SomeD)
  with assms Some show ?thesis
    by (cases "i = 0") (auto simp add: parseIter_def Let_def split: if_splits)
qed

lemma parseLoop_count:
  "length (snd (parseLoop ops p packets)) * getPacketSize p + length (buffer (fst (parseLoop ops p packets)))
     \<le> length packets * getPacketSize p + length (buffer p)"
proof (induction ops p packets rule: parseLoop.induct)
  case (1 ops p packets)
  show ?case
  proof (cases "getPacketSize p \<le> length (buffer p)")
    case False
    then show ?thesis by (simp add: parseLoop.simps [of ops p packets])
  next
    case True
    show ?thesis
    proof (cases "parseIter ops p")
      case (Break buf)
      with True parseIter_length(1) [OF True Break] show ?thesis
        by (simp add: parseLoop.simps [of ops p packets])
    next
      case (Continue buf new)
      from "1.IH" [OF True Continue] parseIter_count [OF True Continue] True Continue
      show ?thesis
        by (simp add: parseLoop.simps [of ops p packets] add_mult_distrib)
    qed
  qed
qed

lemma parseLoop_leftover:
  "length (buffer (fst (parseLoop ops p packets))) < max (getPacketSize p) 3"
proof (induction ops p packets rule: parseLoop.induct)
  case (1 ops p packets)
  show ?case
  proof (cases "getPacketSize p \<le> length (buffer p)")
    case False
    then show ?thesis by (simp add: parseLoop.simps [of ops p packets])
  next
    case True
    show ?thesis
    proof (cases "parseIter ops p")
      case (Break buf)
      then have "length buf < max (getPacketSize p) 3"
        by (auto simp add: parseIter_def Let_def split: option.splits if_splits)
      with True Break show ?thesis by (simp add: parseLoop.simps [of ops p packets])
    next
      case (Continue buf new)
      from "1.IH" [OF True Continue] True Continue show ?thesis
        by (simp add: parseLoop.simps [of ops p packets])
    qed
  qed
qed

lemma appendBytes_length_le: "length (appendBytes buf data) \<le> length buf + length data"
proof (induction data arbitrary: buf)
  case Nil
  then show ?case by simp
next
  case (Cons d ds)
  have "length (appendBytes (buf @ [d]) ds) \<le> length (buf @ [d]) + length ds"
    and "length (appendBytes (tl (buf @ [d])) ds) \<le> length (tl (buf @ [d])) + length ds"
    by (rule Cons.IH)+
  then show ?case by (simp add: Let_def)
qed

lemma parse_count:
  "length (snd (parse ops p data)) * getPacketSize p \<le> length (buffer p) + length data"
proof -
  let ?p = "p\<lparr>buffer := appendBytes (buffer p) data\<rparr>"
  have "length (snd (parseLoop ops ?p [])) * getPacketSize ?p \<le> length (buffer ?p)"
    using parseLoop_count [of ops ?p "[]"] by simp
  also have "\<dots> \<le> length (buffer p) + length data"
    by (simp add: appendBytes_length_le)
  finally show ?thesis by (simp add: parse_def)
qed

lemma parse_leftover:
  "length (buffer (fst (parse ops p data))) < max (getPacketSize p) 3"
  using parseLoop_leftover [of ops "p\<lparr>buffer := appendBytes (buffer p) data\<rparr>" "[]"]
  by (simp add: parse_def)

lemma parse_config:
  "getPacketSize (fst (parse ops p data)) = getPacketSize p"
  "validConfig (fst (parse ops p data)) = validConfig p"
  by (simp_all add: parse_def getPacketSize_def validConfig_def parseLoop_fields)

lemma packets_per_read:
  assumes "length (buffer p) < getPacketSize p" and "length data \<le> n * getPacketSize p"
  shows "length (snd (parse ops p data)) \<le> n"
proof (rule ccontr)
  assume "\<not> length (snd (parse ops p data)) \<le> n"
  then have many: "Suc n \<le> length (snd (parse ops p data))" by simp
  have "Suc n * getPacketSize p \<le> length (snd (parse ops p data)) * getPacketSize p"
    using many by (rule mult_le_mono1)
  also have "\<dots> \<le> length (buffer p) + length data" by (rule parse_count)
  also have "\<dots> < getPacketSize p + n * getPacketSize p" using assms by simp
  finally show False by simp
qed

lemma validConfig_sizes:
  "validConfig p \<Longrightarrow> 4 \<le> getPacketSize p \<and> getPacketSize p \<le> 1027"
proof -
  assume v: "validConfig p"
  then have "numChannels p * bytesPerSample p \<le> 256 * 4"
    by (intro mult_mono) (auto simp add: validConfig_def)
  moreover from v have "1 * 2 \<le> numChannels p * bytesPerSample p"
    by (intro mult_mono) (auto simp add: validConfig_def)
  ultimately show ?thesis
    by (simp add: getPacketSize_def)
qed

lemma read_fits_arrays:
  "validConfig p \<Longrightarrow> READ_BUFFER_SIZE \<le> 1024 * getPacketSize p"
  using validConfig_sizes [of p] by (simp add: READ_BUFFER_SIZE_def)

lemma publishLoop_frame:
  "parser (publishLoop d packets i t) = parser t \<and> bufferSize (publishLoop d packets i t) = bufferSize t"
  by (induction packets arbitrary: i t) (simp_all add: Let_def)

lemma updateBuffer_returns:
  assumes "3 \<le> getPacketSize (parser t)" and "length (buffer (parser t)) < getPacketSize (parser t)"
    and "length bytes \<le> bufferSize t * getPacketSize (parser t)"
  shows "\<exists>t1 out. updateBuffer ops d t bytes = Some (t1, out)
           \<and> getPacketSize (parser t1) = getPacketSize (parser t)
           \<and> length (buffer (parser t1)) < getPacketSize (parser t1) \<and> bufferSize t1 = bufferSize t"
proof -
  have fit: "length (snd (parse ops (parser t) bytes)) \<le> bufferSize t"
    using assms(2,3) by (rule packets_per_read)
  have left: "length (buffer (fst (parse ops (parser t) bytes))) < getPacketSize (parser t)"
    using parse_leftover [of ops "parser t" bytes] assms(1) by simp
  show ?thesis
    using assms fit left
    by (auto simp add: updateBuffer_def Let_def split_beta parse_config publishLoop_frame)
qed

lemma acquire_returns:
  assumes "3 \<le> getPacketSize (parser t)" and "length (buffer (parser t)) < getPacketSize (parser t)"
    and "\<forall>bytes\<in>set reads. length bytes \<le> bufferSize t * getPacketSize (parser t)"
  shows "acquire ops d t reads \<noteq> None"
  using assms
proof (induction reads arbitrary: t)
  case Nil
  then show ?case by simp
next
  case (Cons bytes reads)
  from Cons.prems obtain t1 out where u: "updateBuffer ops d t bytes = Some (t1, out)"
    and inv: "getPacketSize (parser t1) = getPacketSize (parser t)"
      "length (buffer (parser t1)) < getPacketSize (parser t1)" "bufferSize t1 = bufferSize t"
    using updateBuffer_returns [of t bytes ops d] by auto
  have "acquire ops d t1 reads \<noteq> None"
    using inv Cons.prems by (intro Cons.IH) simp_all
  with u show ?case by auto
qed

lemma exampleThread_run:
  "acquire intOps ratOps (startAcquisition ratOps exampleThread)
     [[0xA0, 0x5A, 0x00, 0x0A, 0x00, 0x14, 0xE4, 0xA0, 0x5A, 0x00, 0x01], [0x00, 0x02, 0xF9]]
   = Some (\<lparr> sampleRate = 256, totalSamples = 2, initialTimestamp = 0, bufferSize = 4,
              sampleNumbers = [1, 0, 0, 0], timestampBuffer = [1 / 256, 0, 0, 0],
              parser = exampleParser \<rparr>,
           [(0, 0), (1, 1 / 256)])"
  by (simp add: updateBuffer_def startAcquisition_def exampleThread_def ratOps_def reset_def
      parse_def appendBytes_fits parseLoop.simps parseIter_def findSync_def validateChecksum_def
      decodePacket_def bytesToSample_def rawValue_def int32ToFloat_exact b32_def
      getPacketSize_def exampleParser_def configure_def
      newParser_def intOps_def MAX_BUFFER_SIZE_def Let_def upt_rec del: appendBytes.simps)

text \<open>
  Claim C9. In live acquisition, after \<^verbatim>\<open>startAcquisition\<close>, the cycles of \<^verbatim>\<open>updateBuffer\<close> publish
  every packet with the next sample index, counted from 0 across the calls (so the indices are
  strictly increasing and consecutive), and with the timestamp sampleIndex / sampleRate; the
  first published packet has index 0 and timestamp 0. The statement is for every arithmetic
  that satisfies \<open>timeArith\<close> (as double precision does for a positive finite rate), for a
  sample rate that is not changed during the run, and for reads of at most
  bufferSize * packetSize bytes, with which the arrays are never overrun and every cycle returns
  (for the sizes of the code, 1024 and reads of at most 4096 bytes, see \<open>read_fits_arrays\<close>).
\<close>

theorem live_sample_index_and_timestamp:
  assumes "timeArith d (sampleRate t)"
    and "length (sampleNumbers t) = bufferSize t" and "length (timestampBuffer t) = bufferSize t"
    and "3 \<le> getPacketSize (parser t)"
    and "\<forall>bytes\<in>set reads. length bytes \<le> bufferSize t * getPacketSize (parser t)"
  shows "\<exists>t' published.
      acquire ops d (startAcquisition d t) reads = Some (t', published)
    \<and> published = map (\<lambda>k. (int k, ddiv d (ofInt d (int k)) (sampleRate t))) [0..<length published]
    \<and> (published \<noteq> [] \<longrightarrow> published ! 0 = (0, ofInt d 0))
    \<and> totalSamples t' = int (length published)"
proof -
  let ?t = "startAcquisition d t"
  have "acquire ops d ?t reads \<noteq> None"
    by (rule acquire_returns) (use assms(4,5) in \<open>simp_all add: startAcquisition_def reset_def\<close>)
  then obtain t' published where run: "acquire ops d ?t reads = Some (t', published)"
    by auto
  have "published = map (\<lambda>k. (totalSamples ?t + int k,
                          ddiv d (ofInt d (totalSamples ?t + int k)) (sampleRate ?t))) [0..<length published]
    \<and> totalSamples t' = totalSamples ?t + int (length published)"
    by (rule acquire_spec [where reads = reads and ops = ops])
       (use assms(1-3) run in \<open>simp_all add: startAcquisition_def\<close>)
  then have eq: "published = map (\<lambda>k. (int k, ddiv d (ofInt d (int k)) (sampleRate t))) [0..<length published]"
    and tot: "totalSamples t' = int (length published)"
    by (simp_all add: startAcquisition_def)
  have "published ! 0 = (0, ofInt d 0)" if "published \<noteq> []"
  proof -
    from that have "0 < length published" by simp
    then have "published ! 0 = (int 0, ddiv d (ofInt d (int 0)) (sampleRate t))"
      by (subst eq) simp
    then show ?thesis using assms(1) by (simp add: timeArith_def)
  qed
  with run eq tot show ?thesis by blast
qed

theorem live_sample_index_and_timestamp_witness:
  "timeArith ratOps (sampleRate exampleThread)
   \<and> length (sampleNumbers exampleThread) = bufferSize exampleThread
   \<and> 3 \<le> getPacketSize (parser exampleThread)
   \<and> map_option snd (acquire intOps ratOps (startAcquisition ratOps exampleThread)
         [[0xA0, 0x5A, 0x00, 0x0A, 0x00, 0x14, 0xE4, 0xA0, 0x5A, 0x00, 0x01], [0x00, 0x02, 0xF9]])
       = Some [(0, 0), (1, 1 / 256)]
   \<and> [(0, 0), (1, 1 / 256)]
       = map (\<lambda>k. (int k, ddiv ratOps (ofInt ratOps (int k)) (sampleRate exampleThread)))
           [0..<length [(0 :: int, 0 :: rat), (1, 1 / 256)]]"
proof -
  let ?reads = "[[0xA0, 0x5A, 0x00, 0x0A, 0x00, 0x14, 0xE4, 0xA0, 0x5A, 0x00, 0x01], [0x00, 0x02, 0xF9 :: byte]]"
  have h1: "timeArith ratOps (sampleRate exampleThread)"
    by (simp add: timeArith_def ratOps_def exampleThread_def)
  have h2: "length (sampleNumbers exampleThread) = bufferSize exampleThread"
    and h3: "length (timestampBuffer exampleThread) = bufferSize exampleThread"
    by (simp_all add: exampleThread_def)
  have h4: "3 \<le> getPacketSize (parser exampleThread)"
    by (simp add: exampleThread_def getPacketSize_def exampleParser_def configure_def newParser_def)
  have h5: "\<forall>bytes\<in>set ?reads. length bytes \<le> bufferSize exampleThread * getPacketSize (parser exampleThread)"
    by (simp add: exampleThread_def getPacketSize_def exampleParser_def configure_def newParser_def)
  have run: "map_option snd (acquire intOps ratOps (startAcquisition ratOps exampleThread) ?reads)
       = Some [(0, 0), (1, 1 / 256)]"
    unfolding exampleThread_run by simp
  from live_sample_index_and_timestamp [OF h1 h2 h3 h4 h5, of intOps]
  have "[(0, 0), (1, 1 / 256)]
       = map (\<lambda>k. (int k, ddiv ratOps (ofInt ratOps (int k)) (sampleRate exampleThread)))
           [0..<length [(0 :: int, 0 :: rat), (1, 1 / 256)]]"
    unfolding exampleThread_run by blast
  with h1 h2 h4 run show ?thesis by blast
qed

end
